theory Spec2Isabelle
  imports Main
begin

section \<open>Atomic Chess: a shallow embedding of ChessVar.py\<close>

text \<open>
  The Python classes \<open>Pawn\<close>, \<open>Rook\<close>, \<open>Knight\<close>, \<open>Bishop\<close>, \<open>Queen\<close>, \<open>King\<close> become the
  constructors of one datatype; each carries its colour. Colours are the strings
  \<open>'w'\<close> and \<open>'b'\<close> in the source and no other colour is ever constructed, so they are an
  enumeration here. Python integers are \<open>int\<close>. Python strings are character lists; the
  model covers strings whose code points are below 256, where \<open>int()\<close> of one character
  succeeds exactly on the digits \<open>0\<close> to \<open>9\<close>.
\<close>

subsection \<open>Python values and exceptions\<close>

datatype py_error = IndexError | ValueError

datatype color = White | Black

datatype piece = Pawn color | Rook color | Knight color | Bishop color | Queen color | King color

datatype status = UNFINISHED | WHITE_WON | BLACK_WON

type_synonym board = "piece option list list"

record chessvar =
  self_board :: board
  self_game_state :: status
  self_turn :: color

fun color_str :: "color \<Rightarrow> string" where
  "color_str White = ''w''"
| "color_str Black = ''b''"

fun get_color :: "piece \<Rightarrow> color" where
  "get_color (Pawn c) = c"
| "get_color (Rook c) = c"
| "get_color (Knight c) = c"
| "get_color (Bishop c) = c"
| "get_color (Queen c) = c"
| "get_color (King c) = c"

fun get_symbol :: "piece \<Rightarrow> string" where
  "get_symbol (Pawn c) = ''P_'' @ color_str c"
| "get_symbol (Rook c) = ''R_'' @ color_str c"
| "get_symbol (Knight c) = ''N_'' @ color_str c"
| "get_symbol (Bishop c) = ''B_'' @ color_str c"
| "get_symbol (Queen c) = ''Q_'' @ color_str c"
| "get_symbol (King c) = ''K_'' @ color_str c"

text \<open>
  \<open>xs[i]\<close> on a Python list: an index from \<open>-len\<close> to \<open>-1\<close> counts from the end, any
  index outside \<open>-len \<dots> len-1\<close> raises IndexError.
\<close>

definition py_index :: "'a list \<Rightarrow> int \<Rightarrow> py_error + 'a" where
  "py_index xs i =
     (if 0 \<le> i \<and> i < int (length xs) then Inr (xs ! nat i)
      else if - int (length xs) \<le> i \<and> i < 0 then Inr (xs ! nat (int (length xs) + i))
      else Inl IndexError)"

text \<open>\<open>xs[i] = v\<close> on a Python list, with the same index rule.\<close>

definition py_store :: "'a list \<Rightarrow> int \<Rightarrow> 'a \<Rightarrow> py_error + 'a list" where
  "py_store xs i v =
     (if 0 \<le> i \<and> i < int (length xs) then Inr (xs[nat i := v])
      else if - int (length xs) \<le> i \<and> i < 0 then Inr (xs[nat (int (length xs) + i) := v])
      else Inl IndexError)"

text \<open>\<open>board[row][column]\<close>, read and written. The eight rows are distinct list objects,
  so writing one cell replaces that row in the outer list and touches no other row.\<close>

definition py_get2 :: "board \<Rightarrow> int \<Rightarrow> int \<Rightarrow> py_error + piece option" where
  "py_get2 board row column =
     (case py_index board row of
        Inl e \<Rightarrow> Inl e
      | Inr r \<Rightarrow> py_index r column)"

definition py_set2 :: "board \<Rightarrow> int \<Rightarrow> int \<Rightarrow> piece option \<Rightarrow> py_error + board" where
  "py_set2 board row column v =
     (case py_index board row of
        Inl e \<Rightarrow> Inl e
      | Inr r \<Rightarrow>
          (case py_store r column v of
             Inl e \<Rightarrow> Inl e
           | Inr r' \<Rightarrow> py_store board row r'))"

text \<open>\<open>range(start, stop, step)\<close> for the steps the source uses, \<open>1\<close> and \<open>-1\<close>
  (any other step gives the empty list here; the source never passes one).\<close>

definition py_range :: "int \<Rightarrow> int \<Rightarrow> int \<Rightarrow> int list" where
  "py_range start stop step =
     (if step = 1 then [start..stop - 1]
      else if step = - 1 then rev [stop + 1..start]
      else [])"

text \<open>\<open>int(c)\<close> for a one-character string and \<open>ord(c)\<close>.\<close>

definition py_ord :: "char \<Rightarrow> int" where
  "py_ord c = of_char c"

definition py_int :: "char \<Rightarrow> py_error + int" where
  "py_int c =
     (if py_ord CHR ''0'' \<le> py_ord c \<and> py_ord c \<le> py_ord CHR ''9''
      then Inr (py_ord c - py_ord CHR ''0'')
      else Inl ValueError)"

text \<open>\<open>s[i]\<close> on a string for the constant indices 0 and 1 that the source uses.\<close>

definition py_char_at :: "string \<Rightarrow> nat \<Rightarrow> py_error + char" where
  "py_char_at s i = (if i < length s then Inr (s ! i) else Inl IndexError)"

subsection \<open>Piece movement rules\<close>

text \<open>Every \<open>is_move_valid\<close> returns \<open>Inr\<close> of the Boolean the method returns, or \<open>Inl\<close> of
  the exception a board read raises.\<close>

definition Pawn_is_move_valid ::
  "color \<Rightarrow> int \<Rightarrow> int \<Rightarrow> int \<Rightarrow> int \<Rightarrow> piece option \<Rightarrow> board \<Rightarrow> py_error + bool" where
  "Pawn_is_move_valid self_color row_from column_from row_to column_to square_to board =
     (let capture =
            (square_to \<noteq> None \<and> \<bar>column_from - column_to\<bar> = 1 \<and>
             (self_color = White \<and> row_from - row_to = 1 \<or>
              self_color = Black \<and> row_to - row_from = 1))
      in
      if square_to = None \<and> column_from = column_to then
        (case self_color of
           White \<Rightarrow>
             (if row_from = 6 \<and> row_from - row_to = 2 then
                (case py_get2 board (row_from - 1) column_from of
                   Inl e \<Rightarrow> Inl e
                 | Inr between \<Rightarrow>
                     if between = None then Inr True
                     else if row_from - row_to = 1 then Inr True
                     else Inr capture)
              else if row_from - row_to = 1 then Inr True
              else Inr capture)
         | Black \<Rightarrow>
             (if row_from = 1 \<and> row_to - row_from = 2 then
                (case py_get2 board (row_from + 1) column_from of
                   Inl e \<Rightarrow> Inl e
                 | Inr between \<Rightarrow>
                     if between = None then Inr True
                     else if row_to - row_from = 1 then Inr True
                     else Inr capture)
              else if row_to - row_from = 1 then Inr True
              else Inr capture))
      else Inr capture)"

text \<open>The body of the Rook's and the scan loops: \<open>for \<dots>: if board[row][column] is not
  None: return False\<close> over the squares in order, then \<open>return True\<close>.\<close>

fun path_clear :: "board \<Rightarrow> (int \<times> int) list \<Rightarrow> py_error + bool" where
  "path_clear board [] = Inr True"
| "path_clear board ((row, column) # rest) =
     (case py_get2 board row column of
        Inl e \<Rightarrow> Inl e
      | Inr sq \<Rightarrow> if sq \<noteq> None then Inr False else path_clear board rest)"

definition Rook_is_move_valid ::
  "int \<Rightarrow> int \<Rightarrow> int \<Rightarrow> int \<Rightarrow> piece option \<Rightarrow> board \<Rightarrow> py_error + bool" where
  "Rook_is_move_valid row_from column_from row_to column_to square_to board =
     (if column_from = column_to then
        (let step = (if row_from < row_to then 1 else - 1)
         in path_clear board
              (map (\<lambda>row. (row, column_from)) (py_range (row_from + step) row_to step)))
      else if row_from = row_to then
        (let step = (if column_from < column_to then 1 else - 1)
         in path_clear board
              (map (\<lambda>column. (row_from, column)) (py_range (column_from + step) column_to step)))
      else Inr False)"

definition Knight_is_move_valid ::
  "int \<Rightarrow> int \<Rightarrow> int \<Rightarrow> int \<Rightarrow> piece option \<Rightarrow> board \<Rightarrow> py_error + bool" where
  "Knight_is_move_valid row_from column_from row_to column_to square_to board =
     (let two_by_one = (\<bar>column_from - column_to\<bar> = 2 \<and> \<bar>row_from - row_to\<bar> = 1);
          one_by_two = (\<bar>column_from - column_to\<bar> = 1 \<and> \<bar>row_from - row_to\<bar> = 2)
      in Inr (two_by_one \<or> one_by_two))"

text \<open>The Bishop's \<open>while\<close> loop. \<open>row_step\<close> and \<open>col_step\<close> are the source's locals,
  recomputed here from the same comparisons. The loop ends because a step moves the row
  by one in a fixed direction and a read outside the board raises.\<close>

function bishop_path ::
  "board \<Rightarrow> int \<Rightarrow> int \<Rightarrow> int \<Rightarrow> int \<Rightarrow> int \<Rightarrow> int \<Rightarrow> py_error + bool" where
  "bishop_path board row_from column_from row_to column_to next_row next_column =
     (let row_step = (if row_from < row_to then 1 else - 1);
          col_step = (if column_from < column_to then 1 else - 1)
      in
      if next_row \<noteq> row_to \<and> next_column \<noteq> column_to then
        (case py_get2 board next_row next_column of
           Inl e \<Rightarrow> Inl e
         | Inr sq \<Rightarrow>
             if sq \<noteq> None then Inr False
             else bishop_path board row_from column_from row_to column_to
                    (next_row + row_step) (next_column + col_step))
      else Inr True)"
  by pat_completeness auto
termination
proof (relation "measure (\<lambda>(board, row_from, column_from, row_to, column_to, next_row, next_column).
          if row_from < row_to then nat (int (length board) - next_row)
          else nat (next_row + int (length board) + 1))")
  show "wf (measure (\<lambda>(board, row_from, column_from, row_to, column_to, next_row, next_column).
          if row_from < row_to then nat (int (length board) - next_row)
          else nat (next_row + int (length board) + 1)))"
    by simp
next
  fix board :: board and row_from column_from row_to column_to next_row next_column :: int
    and x xa :: int and x2 :: "piece option"
  assume "py_get2 board next_row next_column = Inr x2"
    and "x = (if row_from < row_to then 1 else - 1)"
  then show "((board, row_from, column_from, row_to, column_to, next_row + x, next_column + xa),
           (board, row_from, column_from, row_to, column_to, next_row, next_column))
         \<in> measure (\<lambda>(board, row_from, column_from, row_to, column_to, next_row, next_column).
          if row_from < row_to then nat (int (length board) - next_row)
          else nat (next_row + int (length board) + 1))"
    by (auto simp: py_get2_def py_index_def split: if_splits sum.splits)
qed

definition Bishop_is_move_valid ::
  "int \<Rightarrow> int \<Rightarrow> int \<Rightarrow> int \<Rightarrow> piece option \<Rightarrow> board \<Rightarrow> py_error + bool" where
  "Bishop_is_move_valid row_from column_from row_to column_to square_to board =
     (if \<bar>column_from - column_to\<bar> \<noteq> \<bar>row_from - row_to\<bar> then Inr False
      else
        (let row_step = (if row_from < row_to then 1 else - 1);
             col_step = (if column_from < column_to then 1 else - 1)
         in bishop_path board row_from column_from row_to column_to
              (row_from + row_step) (column_from + col_step)))"

text \<open>The Queen calls both delegates before combining them, so an exception of either
  one escapes.\<close>

definition Queen_is_move_valid ::
  "int \<Rightarrow> int \<Rightarrow> int \<Rightarrow> int \<Rightarrow> piece option \<Rightarrow> board \<Rightarrow> py_error + bool" where
  "Queen_is_move_valid row_from column_from row_to column_to square_to board =
     (case Rook_is_move_valid row_from column_from row_to column_to square_to board of
        Inl e \<Rightarrow> Inl e
      | Inr rook_move \<Rightarrow>
          (case Bishop_is_move_valid row_from column_from row_to column_to square_to board of
             Inl e \<Rightarrow> Inl e
           | Inr bishop_move \<Rightarrow> Inr (rook_move \<or> bishop_move)))"

definition King_is_move_valid ::
  "int \<Rightarrow> int \<Rightarrow> int \<Rightarrow> int \<Rightarrow> piece option \<Rightarrow> board \<Rightarrow> py_error + bool" where
  "King_is_move_valid row_from column_from row_to column_to square_to board =
     Inr (square_to = None \<and> (0 \<le> \<bar>row_from - row_to\<bar> \<and> \<bar>row_from - row_to\<bar> \<le> 1) \<and>
          (0 \<le> \<bar>column_from - column_to\<bar> \<and> \<bar>column_from - column_to\<bar> \<le> 1))"

text \<open>Dynamic dispatch of \<open>square_from.is_move_valid(\<dots>)\<close> on the class of the piece.\<close>

fun is_move_valid ::
  "piece \<Rightarrow> int \<Rightarrow> int \<Rightarrow> int \<Rightarrow> int \<Rightarrow> piece option \<Rightarrow> board \<Rightarrow> py_error + bool" where
  "is_move_valid (Pawn c) rf cf rt ct sq b = Pawn_is_move_valid c rf cf rt ct sq b"
| "is_move_valid (Rook c) rf cf rt ct sq b = Rook_is_move_valid rf cf rt ct sq b"
| "is_move_valid (Knight c) rf cf rt ct sq b = Knight_is_move_valid rf cf rt ct sq b"
| "is_move_valid (Bishop c) rf cf rt ct sq b = Bishop_is_move_valid rf cf rt ct sq b"
| "is_move_valid (Queen c) rf cf rt ct sq b = Queen_is_move_valid rf cf rt ct sq b"
| "is_move_valid (King c) rf cf rt ct sq b = King_is_move_valid rf cf rt ct sq b"

subsection \<open>The game: ChessVar\<close>

definition new_game :: chessvar where
  "new_game =
     \<lparr> self_board =
         [[Some (Rook Black), Some (Knight Black), Some (Bishop Black), Some (Queen Black),
           Some (King Black), Some (Bishop Black), Some (Knight Black), Some (Rook Black)],
          replicate 8 (Some (Pawn Black)),
          replicate 8 None,
          replicate 8 None,
          replicate 8 None,
          replicate 8 None,
          replicate 8 (Some (Pawn White)),
          [Some (Rook White), Some (Knight White), Some (Bishop White), Some (Queen White),
           Some (King White), Some (Bishop White), Some (Knight White), Some (Rook White)]],
       self_game_state = UNFINISHED,
       self_turn = White \<rparr>"

definition get_game_state :: "chessvar \<Rightarrow> status" where
  "get_game_state self = self_game_state self"

definition change_turn :: "chessvar \<Rightarrow> chessvar" where
  "change_turn self =
     (if self_turn self = White then self\<lparr>self_turn := Black\<rparr>
      else self\<lparr>self_turn := White\<rparr>)"

text \<open>The squares the three nested \<open>for row \<dots>: for column \<dots>\<close> loops visit, in their
  order. The inner range does not depend on the state, so the nested loops run over this
  list.\<close>

definition blast_squares :: "int \<Rightarrow> int \<Rightarrow> (int \<times> int) list" where
  "blast_squares row_to column_to =
     concat (map (\<lambda>row. map (\<lambda>column. (row, column))
                           (py_range (max (column_to - 1) 0) (min (column_to + 2) 8) 1))
                 (py_range (max (row_to - 1) 0) (min (row_to + 2) 8) 1))"

text \<open>The loop body shared by \<open>is_own_king_exploded\<close> (\<open>own = True\<close>, the test
  \<open>piece.get_color() == self._turn\<close>) and \<open>is_opponent_king_exploded\<close> (\<open>own = False\<close>,
  the test \<open>!=\<close>): return True at the first king of the wanted colour, False after the
  last square.\<close>

fun king_scan :: "bool \<Rightarrow> color \<Rightarrow> board \<Rightarrow> (int \<times> int) list \<Rightarrow> py_error + bool" where
  "king_scan own turn board [] = Inr False"
| "king_scan own turn board ((row, column) # rest) =
     (case py_get2 board row column of
        Inl e \<Rightarrow> Inl e
      | Inr None \<Rightarrow> king_scan own turn board rest
      | Inr (Some piece) \<Rightarrow>
          if get_symbol piece ! 0 = CHR ''K'' \<and> ((get_color piece = turn) = own) then Inr True
          else king_scan own turn board rest)"

definition is_own_king_exploded :: "chessvar \<Rightarrow> int \<Rightarrow> int \<Rightarrow> py_error + bool" where
  "is_own_king_exploded self row_to column_to =
     king_scan True (self_turn self) (self_board self) (blast_squares row_to column_to)"

definition is_opponent_king_exploded :: "chessvar \<Rightarrow> int \<Rightarrow> int \<Rightarrow> py_error + bool" where
  "is_opponent_king_exploded self row_to column_to =
     king_scan False (self_turn self) (self_board self) (blast_squares row_to column_to)"

text \<open>The loop of \<open>execute_explosion\<close>: the board after the squares still to visit, and
  the exception that stopped the loop, if one did.\<close>

fun explode :: "board \<Rightarrow> int \<Rightarrow> int \<Rightarrow> (int \<times> int) list \<Rightarrow> py_error option \<times> board" where
  "explode board row_to column_to [] = (None, board)"
| "explode board row_to column_to ((row, column) # rest) =
     (case py_get2 board row column of
        Inl e \<Rightarrow> (Some e, board)
      | Inr None \<Rightarrow> explode board row_to column_to rest
      | Inr (Some piece) \<Rightarrow>
          if get_symbol piece ! 0 = CHR ''P'' \<and> (row \<noteq> row_to \<or> column \<noteq> column_to)
          then explode board row_to column_to rest
          else
            (case py_set2 board row column None of
               Inl e \<Rightarrow> (Some e, board)
             | Inr board' \<Rightarrow> explode board' row_to column_to rest))"

definition execute_explosion :: "chessvar \<Rightarrow> int \<Rightarrow> int \<Rightarrow> py_error option \<times> chessvar" where
  "execute_explosion self row_to column_to =
     (case explode (self_board self) row_to column_to (blast_squares row_to column_to) of
        (err, board') \<Rightarrow> (err, self\<lparr>self_board := board'\<rparr>))"

text \<open>Lines 366 to 369 of \<open>make_move\<close>, for one of the two strings: the row from the
  second character, then the column from the first.\<close>

definition algebraic :: "string \<Rightarrow> py_error + (int \<times> int)" where
  "algebraic s =
     (case py_char_at s 1 of
        Inl e \<Rightarrow> Inl e
      | Inr d \<Rightarrow>
          (case py_int d of
             Inl e \<Rightarrow> Inl e
           | Inr n \<Rightarrow>
               (case py_char_at s 0 of
                  Inl e \<Rightarrow> Inl e
                | Inr c \<Rightarrow> Inr (8 - n, py_ord c - py_ord CHR ''a''))))"

text \<open>Every function of the game returns the result of the call, \<open>Inr\<close> of the returned
  value or \<open>Inl\<close> of the exception raised, together with the state the object is left in.\<close>

text \<open>Lines 393 to 395 and 420: the move without capture.\<close>

definition relocate ::
  "chessvar \<Rightarrow> piece \<Rightarrow> int \<Rightarrow> int \<Rightarrow> int \<Rightarrow> int \<Rightarrow> (py_error + bool) \<times> chessvar" where
  "relocate self square_from row_from column_from row_to column_to =
     (case py_set2 (self_board self) row_from column_from None of
        Inl e \<Rightarrow> (Inl e, self)
      | Inr b1 \<Rightarrow>
          (case py_set2 b1 row_to column_to (Some square_from) of
             Inl e \<Rightarrow> (Inl e, self\<lparr>self_board := b1\<rparr>)
           | Inr b2 \<Rightarrow> (Inr True, change_turn (self\<lparr>self_board := b2\<rparr>))))"

text \<open>Lines 399 to 420: the move with capture.\<close>

definition capture ::
  "chessvar \<Rightarrow> int \<Rightarrow> int \<Rightarrow> int \<Rightarrow> int \<Rightarrow> (py_error + bool) \<times> chessvar" where
  "capture self row_from column_from row_to column_to =
     (case is_own_king_exploded self row_to column_to of
        Inl e \<Rightarrow> (Inl e, self)
      | Inr True \<Rightarrow> (Inr False, self)
      | Inr False \<Rightarrow>
          (case py_set2 (self_board self) row_from column_from None of
             Inl e \<Rightarrow> (Inl e, self)
           | Inr b1 \<Rightarrow>
               (let self1 = self\<lparr>self_board := b1\<rparr> in
                case is_opponent_king_exploded self1 row_to column_to of
                  Inl e \<Rightarrow> (Inl e, self1)
                | Inr exploded \<Rightarrow>
                    (let self2 =
                           (if exploded then
                              (if self_turn self1 = White
                               then self1\<lparr>self_game_state := WHITE_WON\<rparr>
                               else self1\<lparr>self_game_state := BLACK_WON\<rparr>)
                            else change_turn self1)
                     in
                     case execute_explosion self2 row_to column_to of
                       (Some e, self3) \<Rightarrow> (Inl e, self3)
                     | (None, self3) \<Rightarrow> (Inr True, self3)))))"

text \<open>Lines 371 to 423, on the parsed indices.\<close>

definition move_squares ::
  "chessvar \<Rightarrow> int \<Rightarrow> int \<Rightarrow> int \<Rightarrow> int \<Rightarrow> (py_error + bool) \<times> chessvar" where
  "move_squares self row_from column_from row_to column_to =
     (case py_get2 (self_board self) row_from column_from of
        Inl e \<Rightarrow> (Inl e, self)
      | Inr square_from \<Rightarrow>
          (case py_get2 (self_board self) row_to column_to of
             Inl e \<Rightarrow> (Inl e, self)
           | Inr square_to \<Rightarrow>
               (case square_from of
                  None \<Rightarrow> (Inr False, self)
                | Some mover \<Rightarrow>
                    if get_color mover \<noteq> self_turn self then (Inr False, self)
                    else if \<not> (0 \<le> column_to \<and> column_to \<le> 7 \<and> 0 \<le> row_to \<and> row_to \<le> 7)
                    then (Inr False, self)
                    else if (case square_to of None \<Rightarrow> False
                             | Some target \<Rightarrow> get_color target = self_turn self)
                    then (Inr False, self)
                    else
                      (case is_move_valid mover row_from column_from row_to column_to
                              square_to (self_board self) of
                         Inl e \<Rightarrow> (Inl e, self)
                       | Inr False \<Rightarrow> (Inr False, self)
                       | Inr True \<Rightarrow>
                           (case square_to of
                              None \<Rightarrow> relocate self mover row_from column_from row_to column_to
                            | Some target \<Rightarrow>
                                capture self row_from column_from row_to column_to)))))"

definition make_move :: "chessvar \<Rightarrow> string \<Rightarrow> string \<Rightarrow> (py_error + bool) \<times> chessvar" where
  "make_move self string_from string_to =
     (if self_game_state self \<noteq> UNFINISHED then (Inr False, self)
      else if string_from = string_to then (Inr False, self)
      else
        (case algebraic string_from of
           Inl e \<Rightarrow> (Inl e, self)
         | Inr (row_from, column_from) \<Rightarrow>
             (case algebraic string_to of
                Inl e \<Rightarrow> (Inl e, self)
              | Inr (row_to, column_to) \<Rightarrow>
                  move_squares self row_from column_from row_to column_to)))"

text \<open>A sequence of \<open>make_move\<close> calls on one game object, whatever each call returns or
  raises (the caller in main.py goes on after a rejected move).\<close>

fun play :: "chessvar \<Rightarrow> (string \<times> string) list \<Rightarrow> chessvar" where
  "play self [] = self"
| "play self ((string_from, string_to) # rest) =
     play (snd (make_move self string_from string_to)) rest"

section \<open>Vocabulary of the properties\<close>

text \<open>The board of every game is eight rows of eight cells.\<close>

definition wf_board :: "board \<Rightarrow> bool" where
  "wf_board b = (length b = 8 \<and> (\<forall>row \<in> set b. length row = 8))"

text \<open>The list position a Python index from \<open>-8\<close> to \<open>7\<close> denotes on a list of length 8.\<close>

definition py_norm :: "int \<Rightarrow> int" where
  "py_norm i = (if i < 0 then i + 8 else i)"

definition on_board :: "int \<Rightarrow> int \<Rightarrow> bool" where
  "on_board r c = (0 \<le> r \<and> r \<le> 7 \<and> 0 \<le> c \<and> c \<le> 7)"

text \<open>The index pairs that \<open>board[r][c]\<close> accepts on an 8 by 8 board.\<close>

definition indexable :: "int \<Rightarrow> int \<Rightarrow> bool" where
  "indexable r c = (- 8 \<le> r \<and> r \<le> 7 \<and> - 8 \<le> c \<and> c \<le> 7)"

text \<open>The occupant of a square of the board, and the board with one square replaced.\<close>

definition at :: "board \<Rightarrow> int \<Rightarrow> int \<Rightarrow> piece option" where
  "at b r c = b ! nat r ! nat c"

definition put :: "board \<Rightarrow> int \<Rightarrow> int \<Rightarrow> piece option \<Rightarrow> board" where
  "put b r c v = b[nat r := (b ! nat r)[nat c := v]]"

text \<open>A finished game, for the examples: White's knight goes g1, f3, e5 and takes the
  pawn on f7, next to the black king on e8.\<close>

definition won_game :: chessvar where
  "won_game =
     play new_game
       [(''g1'', ''f3''), (''a7'', ''a6''), (''f3'', ''e5''), (''a6'', ''a5''), (''e5'', ''f7'')]"

definition in_blast :: "int \<Rightarrow> int \<Rightarrow> int \<Rightarrow> int \<Rightarrow> bool" where
  "in_blast row_to column_to r c = (on_board r c \<and> \<bar>r - row_to\<bar> \<le> 1 \<and> \<bar>c - column_to\<bar> \<le> 1)"

definition is_pawn :: "piece option \<Rightarrow> bool" where
  "is_pawn sq = (case sq of Some (Pawn c) \<Rightarrow> True | _ \<Rightarrow> False)"

definition opponent :: "color \<Rightarrow> color" where
  "opponent c = (case c of White \<Rightarrow> Black | Black \<Rightarrow> White)"

definition king_in_blast :: "board \<Rightarrow> color \<Rightarrow> int \<Rightarrow> int \<Rightarrow> bool" where
  "king_in_blast b col row_to column_to =
     (\<exists>r \<in> {0..7}. \<exists>c \<in> {0..7}. in_blast row_to column_to r c \<and> at b r c = Some (King col))"

definition blasted :: "board \<Rightarrow> int \<Rightarrow> int \<Rightarrow> (int \<times> int) list \<Rightarrow> int \<Rightarrow> int \<Rightarrow> piece option" where
  "blasted b row_to column_to sqs r c =
     (if (r, c) \<in> set sqs \<and> \<not> (is_pawn (at b r c) \<and> (r, c) \<noteq> (row_to, column_to))
      then None else at b r c)"

definition winner :: "color \<Rightarrow> status" where
  "winner c = (case c of White \<Rightarrow> WHITE_WON | Black \<Rightarrow> BLACK_WON)"

definition after_capture :: "chessvar \<Rightarrow> int \<Rightarrow> int \<Rightarrow> int \<Rightarrow> int \<Rightarrow> chessvar" where
  "after_capture g row_from column_from row_to column_to =
     (let b1 = put (self_board g) (py_norm row_from) (py_norm column_from) None;
          b3 = snd (explode b1 row_to column_to (blast_squares row_to column_to))
      in if king_in_blast b1 (opponent (self_turn g)) row_to column_to
         then g\<lparr>self_board := b3, self_game_state := winner (self_turn g)\<rparr>
         else g\<lparr>self_board := b3, self_turn := opponent (self_turn g)\<rparr>)"

definition after_relocate :: "chessvar \<Rightarrow> piece \<Rightarrow> int \<Rightarrow> int \<Rightarrow> int \<Rightarrow> int \<Rightarrow> chessvar" where
  "after_relocate g mover row_from column_from row_to column_to =
     g\<lparr>self_board := put (put (self_board g) (py_norm row_from) (py_norm column_from) None)
                         row_to column_to (Some mover),
       self_turn := opponent (self_turn g)\<rparr>"

text \<open>The position before the capture that ends \<open>won_game\<close>: White's knight stands on e5,
  Black's pawn on f7 beside the king on e8.\<close>

definition knight_on_e5 :: chessvar where
  "knight_on_e5 =
     play new_game [(''g1'', ''f3''), (''a7'', ''a6''), (''f3'', ''e5''), (''a6'', ''a5'')]"

text \<open>A king of the given colour stands somewhere on the board.\<close>

definition has_king :: "board \<Rightarrow> color \<Rightarrow> bool" where
  "has_king b col = (\<exists>r \<in> {0..7}. \<exists>c \<in> {0..7}. at b r c = Some (King col))"

text \<open>The invariant of the game: an 8 by 8 board, and both kings on it while the game is
  unfinished.\<close>

definition game_inv :: "chessvar \<Rightarrow> bool" where
  "game_inv g =
     (wf_board (self_board g) \<and>
      (self_game_state g = UNFINISHED \<longrightarrow>
         has_king (self_board g) White \<and> has_king (self_board g) Black))"

text \<open>A position with the white king on e2 beside a black pawn on d3, White to move.\<close>

definition king_beside_pawn :: chessvar where
  "king_beside_pawn =
     play new_game
       [(''e2'', ''e4''), (''d7'', ''d5''), (''e4'', ''e5''), (''d5'', ''d4''),
        (''e1'', ''e2''), (''d4'', ''d3'')]"

text \<open>The row direction a pawn of a colour moves in, the row it starts on, and how many
  rows forward a move from one row to another goes.\<close>

definition forward :: "color \<Rightarrow> int" where
  "forward col = (case col of White \<Rightarrow> - 1 | Black \<Rightarrow> 1)"

definition start_row :: "color \<Rightarrow> int" where
  "start_row col = (case col of White \<Rightarrow> 6 | Black \<Rightarrow> 1)"

definition advance :: "color \<Rightarrow> int \<Rightarrow> int \<Rightarrow> int" where
  "advance col row_from row_to = (row_to - row_from) * forward col"

text \<open>A position with a black pawn on b5, on the diagonal from f1 to a6, next to a6.\<close>

definition pawn_on_b5 :: chessvar where
  "pawn_on_b5 = play new_game [(''e2'', ''e4''), (''b7'', ''b5'')]"

section \<open>Reading and writing the board\<close>

lemma on_board_norm: "indexable r c \<Longrightarrow> on_board (py_norm r) (py_norm c)"
  by (auto simp: indexable_def on_board_def py_norm_def)

lemma py_norm_id: "0 \<le> i \<Longrightarrow> py_norm i = i"
  by (simp add: py_norm_def)

lemma on_board_indexable: "on_board r c \<Longrightarrow> indexable r c"
  by (auto simp: indexable_def on_board_def)

lemma py_index_8:
  "length xs = 8 \<Longrightarrow>
   py_index xs i = (if - 8 \<le> i \<and> i \<le> 7 then Inr (xs ! nat (py_norm i)) else Inl IndexError)"
  by (auto simp: py_index_def py_norm_def add.commute)

lemma py_store_8:
  "length xs = 8 \<Longrightarrow>
   py_store xs i v = (if - 8 \<le> i \<and> i \<le> 7 then Inr (xs[nat (py_norm i) := v]) else Inl IndexError)"
  by (auto simp: py_store_def py_norm_def add.commute)

lemma wf_board_row: "wf_board b \<Longrightarrow> - 8 \<le> r \<Longrightarrow> r \<le> 7 \<Longrightarrow> length (b ! nat (py_norm r)) = 8"
  by (auto simp: wf_board_def py_norm_def)

lemma py_get2_wf:
  assumes "wf_board b"
  shows "py_get2 b r c = (if indexable r c then Inr (at b (py_norm r) (py_norm c)) else Inl IndexError)"
proof -
  have len: "length b = 8" using assms by (simp add: wf_board_def)
  show ?thesis
    by (simp add: py_get2_def py_index_8 [OF len] py_index_8 [OF wf_board_row [OF assms]]
        indexable_def at_def)
qed

lemma py_set2_wf:
  assumes "wf_board b"
  shows "py_set2 b r c v = (if indexable r c then Inr (put b (py_norm r) (py_norm c) v) else Inl IndexError)"
proof -
  have len: "length b = 8" using assms by (simp add: wf_board_def)
  show ?thesis
    by (simp add: py_set2_def py_index_8 [OF len] py_store_8 [OF len]
        py_store_8 [OF wf_board_row [OF assms]] indexable_def put_def)
qed

lemma wf_put: 
  assumes "wf_board b"
  shows "wf_board (put b r c v)"
proof (cases "nat r < length b")
  case True
  then have "b ! nat r \<in> set b" by simp
  then have l: "length ((b ! nat r)[nat c := v]) = 8"
    using assms by (simp add: wf_board_def)
  have "set (put b r c v) \<subseteq> insert ((b ! nat r)[nat c := v]) (set b)"
    unfolding put_def by (rule set_update_subset_insert)
  then have "\<forall>row \<in> set (put b r c v). length row = 8"
    using l assms by (auto simp: wf_board_def)
  then show ?thesis using assms by (simp add: wf_board_def put_def)
next
  case False
  then have "put b r c v = b" by (simp add: put_def list_update_beyond)
  then show ?thesis using assms by simp
qed

lemma at_put:
  assumes "wf_board b" "on_board r c" "on_board r' c'"
  shows "at (put b r c v) r' c' = (if r' = r \<and> c' = c then v else at b r' c')"
proof -
  have len: "length b = 8" using assms by (simp add: wf_board_def)
  have row: "\<And>i. i < 8 \<Longrightarrow> length (b ! i) = 8"
    using assms by (simp add: wf_board_def)
  have n: "nat r < 8" "nat c < 8" "nat r' < 8" "nat c' < 8"
    using assms by (auto simp: on_board_def)
  have e: "nat r' = nat r \<longleftrightarrow> r' = r" "nat c' = nat c \<longleftrightarrow> c' = c"
    using assms by (auto simp: on_board_def)
  show ?thesis
    using n e by (auto simp: at_def put_def len row nth_list_update)
qed

lemma wf_new_game: "wf_board (self_board new_game)"
  by (simp add: wf_board_def new_game_def)


section \<open>The gates of make_move\<close>

text \<open>
  C1 (the claim fails on the code): a destination outside the board is meant to be
  rejected with False, but \<open>make_move\<close> reads \<open>self._board[row_to][column_to]\<close> (line 374)
  before the bounds test of line 381. On the initial position the request from e2 to e0
  parses to row index 8, and that read raises IndexError; the state is left as it was.
\<close>

theorem destination_off_board_raises:
  "make_move new_game ''e2'' ''e0'' = (Inl IndexError, new_game)"
  by code_simp

text \<open>
  C6: once the game state is not UNFINISHED, every call of \<open>make_move\<close>, for any two
  strings, returns False and leaves board, turn and game state as they were; so does any
  sequence of calls, and the game state never leaves WHITE WON or BLACK WON.
\<close>

theorem finished_game_is_terminal:
  assumes "self_game_state g \<noteq> UNFINISHED"
  shows "make_move g string_from string_to = (Inr False, g) \<and> play g moves = g"
proof
  show "make_move g string_from string_to = (Inr False, g)"
    using assms by (simp add: make_move_def)
  have step: "\<And>a b. snd (make_move g a b) = g"
    using assms by (simp add: make_move_def)
  show "play g moves = g"
    by (induction moves) (auto simp: step)
qed

theorem finished_game_is_terminal_witness:
  "self_game_state won_game = WHITE_WON \<and>
   make_move won_game ''e1'' ''e2'' = (Inr False, won_game) \<and>
   play won_game [(''e1'', ''e2''), (''e7'', ''e5'')] = won_game"
proof -
  have h: "self_game_state won_game = WHITE_WON" by code_simp
  then have "self_game_state won_game \<noteq> UNFINISHED" by simp
  from finished_game_is_terminal [OF this] h show ?thesis by blast
qed

section \<open>The scans and the explosion\<close>

lemma king_symbol: "get_symbol p ! 0 = CHR ''K'' \<longleftrightarrow> p = King (get_color p)"
  by (cases p) simp_all

lemma pawn_symbol: "get_symbol p ! 0 = CHR ''P'' \<longleftrightarrow> is_pawn (Some p)"
  by (cases p) (simp_all add: is_pawn_def)

lemma set_blast_squares: "set (blast_squares row_to column_to) = {(r, c). in_blast row_to column_to r c}"
proof -
  have "\<And>r c. (r, c) \<in> set (blast_squares row_to column_to) \<longleftrightarrow> in_blast row_to column_to r c"
  proof -
    fix r c
    have "(r, c) \<in> set (blast_squares row_to column_to) \<longleftrightarrow>
          r \<in> set (py_range (max (row_to - 1) 0) (min (row_to + 2) 8) 1) \<and>
          c \<in> set (py_range (max (column_to - 1) 0) (min (column_to + 2) 8) 1)"
      unfolding blast_squares_def by auto
    also have "\<dots> \<longleftrightarrow> in_blast row_to column_to r c"
      by (auto simp: py_range_def in_blast_def on_board_def)
    finally show "(r, c) \<in> set (blast_squares row_to column_to) \<longleftrightarrow> in_blast row_to column_to r c" .
  qed
  then show ?thesis by auto
qed

lemma blast_squares_on_board: "(r, c) \<in> set (blast_squares row_to column_to) \<Longrightarrow> on_board r c"
  by (simp add: set_blast_squares in_blast_def)

lemma king_scan_wf:
  assumes "wf_board b" "\<And>r c. (r, c) \<in> set sqs \<Longrightarrow> on_board r c"
  shows "king_scan own turn b sqs =
           Inr (\<exists>(r, c) \<in> set sqs. \<exists>col. at b r c = Some (King col) \<and> ((col = turn) = own))"
  using assms(2)
proof (induction sqs)
  case Nil
  then show ?case by simp
next
  case (Cons sq sqs)
  obtain r c where sq: "sq = (r, c)" by (cases sq)
  have ob: "on_board r c" using Cons.prems sq by simp
  then have g: "py_get2 b r c = Inr (at b r c)"
    by (simp add: py_get2_wf [OF assms(1)] on_board_indexable py_norm_id on_board_def)
  have ih: "king_scan own turn b sqs =
           Inr (\<exists>(r, c) \<in> set sqs. \<exists>col. at b r c = Some (King col) \<and> ((col = turn) = own))"
    using Cons by simp
  show ?case
  proof (cases "at b r c")
    case None
    then show ?thesis by (simp add: sq g ih)
  next
    case (Some p)
    then show ?thesis
      by (cases p) (auto simp: sq g ih)
  qed
qed

lemma explode_step_keep:
  assumes "py_get2 b r c = Inr (at b r c)"
    and "at b r c = None \<or> (is_pawn (at b r c) \<and> (r, c) \<noteq> (row_to, column_to))"
  shows "explode b row_to column_to ((r, c) # sqs) = explode b row_to column_to sqs"
proof (cases "at b r c")
  case None
  then show ?thesis by (simp add: assms(1))
next
  case (Some p)
  then have "get_symbol p ! 0 = CHR ''P''" "r \<noteq> row_to \<or> c \<noteq> column_to"
    using assms(2) by (auto simp: pawn_symbol)
  then show ?thesis by (simp add: assms(1) Some)
qed

lemma explode_step_clear:
  assumes "py_get2 b r c = Inr (at b r c)" "py_set2 b r c None = Inr b'"
    and "\<not> (at b r c = None \<or> (is_pawn (at b r c) \<and> (r, c) \<noteq> (row_to, column_to)))"
  shows "explode b row_to column_to ((r, c) # sqs) = explode b' row_to column_to sqs"
proof (cases "at b r c")
  case None
  then show ?thesis using assms(3) by simp
next
  case (Some p)
  then have "get_symbol p ! 0 \<noteq> CHR ''P'' \<or> (r = row_to \<and> c = column_to)"
    using assms(3) by (auto simp: pawn_symbol)
  then show ?thesis by (auto simp: assms(1,2) Some)
qed

lemma blasted_keep:
  assumes "at b r c = None \<or> (is_pawn (at b r c) \<and> (r, c) \<noteq> (row_to, column_to))"
  shows "blasted b row_to column_to ((r, c) # sqs) r' c' = blasted b row_to column_to sqs r' c'"
proof (cases "(r', c') = (r, c)")
  case True
  then show ?thesis using assms by (auto simp: blasted_def)
next
  case False
  then show ?thesis by (auto simp: blasted_def)
qed

lemma blasted_clear:
  assumes "wf_board b" "on_board r c" "on_board r' c'"
    and "\<not> (at b r c = None \<or> (is_pawn (at b r c) \<and> (r, c) \<noteq> (row_to, column_to)))"
  shows "blasted (put b r c None) row_to column_to sqs r' c' =
         blasted b row_to column_to ((r, c) # sqs) r' c'"
proof (cases "(r', c') = (r, c)")
  case True
  then have "at (put b r c None) r' c' = None"
    using at_put [OF assms(1,2,3)] by simp
  then show ?thesis using True assms(4) by (simp add: blasted_def)
next
  case False
  then have "at (put b r c None) r' c' = at b r' c'"
    using at_put [OF assms(1,2,3)] by auto
  then show ?thesis using False by (auto simp: blasted_def)
qed

lemma explode_wf:
  assumes "wf_board b" "\<And>r c. (r, c) \<in> set sqs \<Longrightarrow> on_board r c"
  shows "fst (explode b row_to column_to sqs) = None \<and>
         wf_board (snd (explode b row_to column_to sqs)) \<and>
         (\<forall>r c. on_board r c \<longrightarrow>
            at (snd (explode b row_to column_to sqs)) r c = blasted b row_to column_to sqs r c)"
  using assms
proof (induction sqs arbitrary: b)
  case Nil
  then show ?case by (simp add: blasted_def)
next
  case (Cons sq sqs)
  obtain r c where sq: "sq = (r, c)" by (cases sq)
  have ob: "on_board r c" using Cons.prems(2) [of r c] sq by simp
  have n: "py_norm r = r" "py_norm c = c" using ob by (simp_all add: py_norm_id on_board_def)
  have g: "py_get2 b r c = Inr (at b r c)"
    by (simp add: py_get2_wf [OF Cons.prems(1)] on_board_indexable ob n)
  have s: "py_set2 b r c None = Inr (put b r c None)"
    by (simp add: py_set2_wf [OF Cons.prems(1)] on_board_indexable ob n)
  have rest: "\<And>r c. (r, c) \<in> set sqs \<Longrightarrow> on_board r c" using Cons.prems(2) by simp
  show ?case
  proof (cases "at b r c = None \<or> (is_pawn (at b r c) \<and> (r, c) \<noteq> (row_to, column_to))")
    case True
    have e: "explode b row_to column_to ((r, c) # sqs) = explode b row_to column_to sqs"
      by (rule explode_step_keep [OF g True])
    show ?thesis
      unfolding sq e blasted_keep [OF True] by (rule Cons.IH [OF Cons.prems(1) rest])
  next
    case False
    have e: "explode b row_to column_to ((r, c) # sqs) = explode (put b r c None) row_to column_to sqs"
      by (rule explode_step_clear [OF g s False])
    have w: "wf_board (put b r c None)" by (rule wf_put [OF Cons.prems(1)])
    note ih = Cons.IH [OF w rest]
    have "at (snd (explode (put b r c None) row_to column_to sqs)) r' c' =
          blasted b row_to column_to ((r, c) # sqs) r' c'" if "on_board r' c'" for r' c'
      using ih that blasted_clear [OF Cons.prems(1) ob that False, of sqs] by simp
    then show ?thesis
      unfolding sq e using ih by blast
  qed
qed

section \<open>The steps of make_move on a well-formed board\<close>

lemma on_board_norm_id: "on_board r c \<Longrightarrow> py_norm r = r \<and> py_norm c = c"
  by (simp add: on_board_def py_norm_def)

lemma py_get2_on_board: "wf_board b \<Longrightarrow> on_board r c \<Longrightarrow> py_get2 b r c = Inr (at b r c)"
  by (simp add: py_get2_wf on_board_indexable on_board_norm_id)

lemma py_set2_on_board: "wf_board b \<Longrightarrow> on_board r c \<Longrightarrow> py_set2 b r c v = Inr (put b r c v)"
  by (simp add: py_set2_wf on_board_indexable on_board_norm_id)

lemma change_turn_eq: "change_turn g = g\<lparr>self_turn := opponent (self_turn g)\<rparr>"
  by (cases "self_turn g") (simp_all add: change_turn_def opponent_def)

lemma king_in_blast_iff:
  "king_in_blast b col row_to column_to \<longleftrightarrow>
     (\<exists>r c. in_blast row_to column_to r c \<and> at b r c = Some (King col))"
  unfolding king_in_blast_def in_blast_def on_board_def Bex_def atLeastAtMost_iff by blast

lemma own_king_scan:
  assumes "wf_board b"
  shows "king_scan True turn b (blast_squares row_to column_to) =
         Inr (king_in_blast b turn row_to column_to)"
proof -
  have "(\<exists>(r, c) \<in> set (blast_squares row_to column_to).
           \<exists>col. at b r c = Some (King col) \<and> ((col = turn) = True)) =
        king_in_blast b turn row_to column_to"
    by (auto simp: set_blast_squares king_in_blast_iff)
  then show ?thesis
    using king_scan_wf [where sqs = "blast_squares row_to column_to" and own = True and turn = turn,
        OF assms blast_squares_on_board] by simp
qed

lemma opponent_king_scan:
  assumes "wf_board b"
  shows "king_scan False turn b (blast_squares row_to column_to) =
         Inr (king_in_blast b (opponent turn) row_to column_to)"
proof -
  have c: "(col \<noteq> turn) = (col = opponent turn)" for col
    by (cases col; cases turn) (simp_all add: opponent_def)
  have "(\<exists>(r, c) \<in> set (blast_squares row_to column_to).
           \<exists>col. at b r c = Some (King col) \<and> ((col = turn) = False)) =
        king_in_blast b (opponent turn) row_to column_to"
    by (auto simp: set_blast_squares king_in_blast_iff c)
  then show ?thesis
    using king_scan_wf [where sqs = "blast_squares row_to column_to" and own = False and turn = turn,
        OF assms blast_squares_on_board] by simp
qed

lemma relocate_wf:
  assumes "wf_board (self_board g)" "indexable row_from column_from" "on_board row_to column_to"
  shows "relocate g mover row_from column_from row_to column_to =
           (Inr True,
            g\<lparr>self_board := put (put (self_board g) (py_norm row_from) (py_norm column_from) None)
                               row_to column_to (Some mover),
              self_turn := opponent (self_turn g)\<rparr>)"
  by (simp add: relocate_def py_set2_wf assms on_board_indexable
      on_board_norm_id [OF assms(3)] wf_put change_turn_eq)

lemma capture_wf:
  assumes "wf_board (self_board g)" "indexable row_from column_from"
  shows "capture g row_from column_from row_to column_to =
           (if king_in_blast (self_board g) (self_turn g) row_to column_to then (Inr False, g)
            else (Inr True, after_capture g row_from column_from row_to column_to))"
proof -
  let ?b1 = "put (self_board g) (py_norm row_from) (py_norm column_from) None"
  have w1: "wf_board ?b1" by (rule wf_put [OF assms(1)])
  have ex: "fst (explode ?b1 row_to column_to (blast_squares row_to column_to)) = None"
    using explode_wf [OF w1, of "blast_squares row_to column_to" row_to column_to]
      blast_squares_on_board by blast
  then obtain b3 where b3: "explode ?b1 row_to column_to (blast_squares row_to column_to) = (None, b3)"
    by (cases "explode ?b1 row_to column_to (blast_squares row_to column_to)") simp
  show ?thesis
    by (cases "self_turn g")
       (simp_all add: capture_def is_own_king_exploded_def is_opponent_king_exploded_def
        own_king_scan opponent_king_scan assms w1 py_set2_wf execute_explosion_def b3
        after_capture_def change_turn_eq winner_def opponent_def Let_def)
qed

lemma bounds_gate: "(0 \<le> c \<and> c \<le> 7 \<and> 0 \<le> r \<and> r \<le> 7) = on_board r c"
  by (auto simp: on_board_def)

lemma move_squares_wf:
  assumes "wf_board (self_board g)"
  shows "move_squares g row_from column_from row_to column_to =
     (if \<not> indexable row_from column_from then (Inl IndexError, g)
      else if \<not> indexable row_to column_to then (Inl IndexError, g)
      else
        (case at (self_board g) (py_norm row_from) (py_norm column_from) of
           None \<Rightarrow> (Inr False, g)
         | Some mover \<Rightarrow>
             if get_color mover \<noteq> self_turn g then (Inr False, g)
             else if \<not> on_board row_to column_to then (Inr False, g)
             else if (case at (self_board g) (py_norm row_to) (py_norm column_to) of
                        None \<Rightarrow> False | Some target \<Rightarrow> get_color target = self_turn g)
             then (Inr False, g)
             else
               (case is_move_valid mover row_from column_from row_to column_to
                       (at (self_board g) (py_norm row_to) (py_norm column_to)) (self_board g) of
                  Inl e \<Rightarrow> (Inl e, g)
                | Inr False \<Rightarrow> (Inr False, g)
                | Inr True \<Rightarrow>
                    (case at (self_board g) (py_norm row_to) (py_norm column_to) of
                       None \<Rightarrow> relocate g mover row_from column_from row_to column_to
                     | Some target \<Rightarrow> capture g row_from column_from row_to column_to))))"
  by (simp add: move_squares_def py_get2_wf [OF assms] bounds_gate cong: option.case_cong if_cong)

lemma move_squares_accepted:
  assumes w: "wf_board (self_board g)"
    and m: "move_squares g row_from column_from row_to column_to = (Inr True, g')"
  shows "indexable row_from column_from \<and> on_board row_to column_to \<and>
     (\<exists>mover. at (self_board g) (py_norm row_from) (py_norm column_from) = Some mover \<and>
        get_color mover = self_turn g \<and>
        is_move_valid mover row_from column_from row_to column_to
          (at (self_board g) row_to column_to) (self_board g) = Inr True \<and>
        (case at (self_board g) row_to column_to of
           None \<Rightarrow> g' = after_relocate g mover row_from column_from row_to column_to
         | Some target \<Rightarrow>
             get_color target \<noteq> self_turn g \<and>
             \<not> king_in_blast (self_board g) (self_turn g) row_to column_to \<and>
             g' = after_capture g row_from column_from row_to column_to))"
proof -
  note ms = m [unfolded move_squares_wf [OF w]]
  have i: "indexable row_from column_from"
    using ms by (auto split: if_splits)
  obtain mover where mv: "at (self_board g) (py_norm row_from) (py_norm column_from) = Some mover"
    using ms by (auto split: if_splits option.splits)
  have col: "get_color mover = self_turn g"
    using ms by (auto simp: mv split: if_splits)
  have ob: "on_board row_to column_to"
    using ms by (auto simp: mv split: if_splits)
  note n = on_board_norm_id [OF ob]
  have ms': "(if (case at (self_board g) row_to column_to of
                        None \<Rightarrow> False | Some target \<Rightarrow> get_color target = self_turn g)
             then (Inr False, g)
             else
               (case is_move_valid mover row_from column_from row_to column_to
                       (at (self_board g) row_to column_to) (self_board g) of
                  Inl e \<Rightarrow> (Inl e, g)
                | Inr False \<Rightarrow> (Inr False, g)
                | Inr True \<Rightarrow>
                    (case at (self_board g) row_to column_to of
                       None \<Rightarrow> relocate g mover row_from column_from row_to column_to
                     | Some target \<Rightarrow> capture g row_from column_from row_to column_to))) = (Inr True, g')"
    using ms by (simp add: i mv col ob n on_board_indexable
        cong: option.case_cong sum.case_cong bool.case_cong if_cong)
  have v: "is_move_valid mover row_from column_from row_to column_to
          (at (self_board g) row_to column_to) (self_board g) = Inr True"
    using ms' by (auto split: if_splits sum.splits bool.splits)
  have fin: "(case at (self_board g) row_to column_to of
                       None \<Rightarrow> relocate g mover row_from column_from row_to column_to
                     | Some target \<Rightarrow> capture g row_from column_from row_to column_to) = (Inr True, g')"
    and own: "\<not> (case at (self_board g) row_to column_to of
                        None \<Rightarrow> False | Some target \<Rightarrow> get_color target = self_turn g)"
    using ms' by (auto simp: v split: if_splits)
  have "case at (self_board g) row_to column_to of
           None \<Rightarrow> g' = after_relocate g mover row_from column_from row_to column_to
         | Some target \<Rightarrow>
             get_color target \<noteq> self_turn g \<and>
             \<not> king_in_blast (self_board g) (self_turn g) row_to column_to \<and>
             g' = after_capture g row_from column_from row_to column_to"
  proof (cases "at (self_board g) row_to column_to")
    case None
    then show ?thesis
      using fin by (simp add: relocate_wf [OF w i ob] after_relocate_def)
  next
    case (Some target)
    then show ?thesis
      using fin own by (auto simp: capture_wf [OF w i] split: if_splits)
  qed
  then show ?thesis using i ob mv col v by blast
qed

lemma make_move_accepted:
  assumes "make_move g string_from string_to = (Inr True, g')"
  shows "self_game_state g = UNFINISHED \<and>
     (\<exists>row_from column_from row_to column_to.
        algebraic string_from = Inr (row_from, column_from) \<and>
        algebraic string_to = Inr (row_to, column_to) \<and>
        move_squares g row_from column_from row_to column_to = (Inr True, g'))"
  using assms by (auto simp: make_move_def split: if_splits sum.splits prod.splits)

lemma move_squares_cases:
  assumes w: "wf_board (self_board g)"
  shows "snd (move_squares g row_from column_from row_to column_to) = g \<or>
         fst (move_squares g row_from column_from row_to column_to) = Inr True"
proof (cases "indexable row_from column_from \<and> on_board row_to column_to")
  case True
  then show ?thesis
    by (auto simp: move_squares_wf [OF w] relocate_wf [OF w] capture_wf [OF w]
        split: option.splits sum.splits bool.splits)
next
  case False
  then show ?thesis
    by (auto simp: move_squares_wf [OF w] split: option.splits)
qed

lemma make_move_cases:
  assumes w: "wf_board (self_board g)"
  shows "snd (make_move g string_from string_to) = g \<or>
         fst (make_move g string_from string_to) = Inr True"
  using move_squares_cases [OF w]
  by (auto simp: make_move_def split: sum.splits prod.splits)

section \<open>Accepted moves\<close>

lemma algebraic_inject:
  "algebraic s = Inr (r, c) \<Longrightarrow> algebraic s = Inr (r', c') \<Longrightarrow> r' = r \<and> c' = c"
  by simp

lemma make_move_accepted_squares:
  assumes "wf_board (self_board g)"
    and "algebraic string_from = Inr (row_from, column_from)"
    and "algebraic string_to = Inr (row_to, column_to)"
    and "make_move g string_from string_to = (Inr True, g')"
  shows "self_game_state g = UNFINISHED \<and>
     indexable row_from column_from \<and> on_board row_to column_to \<and>
     (\<exists>mover. at (self_board g) (py_norm row_from) (py_norm column_from) = Some mover \<and>
        get_color mover = self_turn g \<and>
        is_move_valid mover row_from column_from row_to column_to
          (at (self_board g) row_to column_to) (self_board g) = Inr True \<and>
        (case at (self_board g) row_to column_to of
           None \<Rightarrow> g' = after_relocate g mover row_from column_from row_to column_to
         | Some target \<Rightarrow>
             get_color target \<noteq> self_turn g \<and>
             \<not> king_in_blast (self_board g) (self_turn g) row_to column_to \<and>
             g' = after_capture g row_from column_from row_to column_to))"
proof -
  from make_move_accepted [OF assms(4)] assms(2,3)
  have u: "self_game_state g = UNFINISHED"
    and m: "move_squares g row_from column_from row_to column_to = (Inr True, g')"
    by auto
  from move_squares_accepted [OF assms(1) m] u show ?thesis by simp
qed

text \<open>
  C5: an accepted move onto an empty destination empties the origin, puts the piece that
  stood on the origin on the destination, changes no other square of the board, passes
  the turn to the other side and leaves the game state as it was.
\<close>

theorem quiet_move_effect:
  assumes "wf_board (self_board g)"
    and "algebraic string_from = Inr (row_from, column_from)"
    and "algebraic string_to = Inr (row_to, column_to)"
    and "py_get2 (self_board g) row_to column_to = Inr None"
    and "make_move g string_from string_to = (Inr True, g')"
  shows "py_get2 (self_board g') row_from column_from = Inr None \<and>
         (\<exists>mover. py_get2 (self_board g) row_from column_from = Inr (Some mover) \<and>
                  py_get2 (self_board g') row_to column_to = Inr (Some mover)) \<and>
         (\<forall>r c. on_board r c \<and> (r, c) \<noteq> (py_norm row_from, py_norm column_from) \<and>
                (r, c) \<noteq> (row_to, column_to) \<longrightarrow>
                at (self_board g') r c = at (self_board g) r c) \<and>
         self_turn g' \<noteq> self_turn g \<and>
         self_game_state g' = self_game_state g"
proof -
  let ?b = "self_board g"
  let ?nr = "py_norm row_from" and ?nc = "py_norm column_from"
  from make_move_accepted_squares [OF assms(1,2,3,5)]
  obtain mover where i: "indexable row_from column_from" and ob: "on_board row_to column_to"
    and mv: "at ?b ?nr ?nc = Some mover"
    and fin: "case at ?b row_to column_to of
           None \<Rightarrow> g' = after_relocate g mover row_from column_from row_to column_to
         | Some target \<Rightarrow>
             get_color target \<noteq> self_turn g \<and>
             \<not> king_in_blast ?b (self_turn g) row_to column_to \<and>
             g' = after_capture g row_from column_from row_to column_to"
    by blast
  have empty: "at ?b row_to column_to = None"
    using assms(4) by (simp add: py_get2_on_board [OF assms(1) ob])
  have g': "g' = after_relocate g mover row_from column_from row_to column_to"
    using fin by (simp add: empty)
  let ?b1 = "put ?b ?nr ?nc None"
  have b': "self_board g' = put ?b1 row_to column_to (Some mover)"
    by (simp add: g' after_relocate_def)
  have w1: "wf_board ?b1" by (rule wf_put [OF assms(1)])
  have w': "wf_board (self_board g')" unfolding b' by (rule wf_put [OF w1])
  have on: "on_board ?nr ?nc" by (rule on_board_norm [OF i])
  have ne: "\<not> (?nr = row_to \<and> ?nc = column_to)" using mv empty by auto
  have at': "at (self_board g') r c =
      (if r = row_to \<and> c = column_to then Some mover
       else if r = ?nr \<and> c = ?nc then None else at ?b r c)" if "on_board r c" for r c
    unfolding b' using ne by (auto simp: at_put [OF w1 ob that] at_put [OF assms(1) on] that on)
  have 1: "py_get2 (self_board g') row_from column_from = Inr None"
    using ne by (simp add: py_get2_wf [OF w'] i at' [OF on])
  have 2: "py_get2 ?b row_from column_from = Inr (Some mover)"
    by (simp add: py_get2_wf [OF assms(1)] i mv)
  have 3: "py_get2 (self_board g') row_to column_to = Inr (Some mover)"
    by (simp add: py_get2_on_board [OF w' ob] at' [OF ob])
  have 4: "\<forall>r c. on_board r c \<and> (r, c) \<noteq> (?nr, ?nc) \<and> (r, c) \<noteq> (row_to, column_to) \<longrightarrow>
                at (self_board g') r c = at ?b r c"
    by (auto simp: at')
  have 5: "self_turn g' \<noteq> self_turn g"
    by (cases "self_turn g") (simp_all add: g' after_relocate_def opponent_def)
  have 6: "self_game_state g' = self_game_state g"
    by (simp add: g' after_relocate_def)
  from 1 2 3 4 5 6 show ?thesis by blast
qed

theorem quiet_move_effect_witness:
  "wf_board (self_board new_game) \<and>
   algebraic ''e2'' = Inr (6, 4) \<and> algebraic ''e4'' = Inr (4, 4) \<and>
   py_get2 (self_board new_game) 4 4 = Inr None \<and>
   fst (make_move new_game ''e2'' ''e4'') = Inr True \<and>
   py_get2 (self_board (snd (make_move new_game ''e2'' ''e4''))) 6 4 = Inr None \<and>
   py_get2 (self_board (snd (make_move new_game ''e2'' ''e4''))) 4 4 = Inr (Some (Pawn White)) \<and>
   at (self_board (snd (make_move new_game ''e2'' ''e4''))) 7 4 = at (self_board new_game) 7 4 \<and>
   self_turn (snd (make_move new_game ''e2'' ''e4'')) \<noteq> self_turn new_game \<and>
   self_game_state (snd (make_move new_game ''e2'' ''e4'')) = self_game_state new_game"
proof -
  let ?g' = "snd (make_move new_game ''e2'' ''e4'')"
  have h1: "wf_board (self_board new_game)" by (rule wf_new_game)
  have h2: "algebraic ''e2'' = Inr (6, 4)" by code_simp
  have h3: "algebraic ''e4'' = Inr (4, 4)" by code_simp
  have h4: "py_get2 (self_board new_game) 4 4 = Inr None" by code_simp
  have h5: "fst (make_move new_game ''e2'' ''e4'') = Inr True" by code_simp
  then have h5': "make_move new_game ''e2'' ''e4'' = (Inr True, ?g')"
    by (simp add: prod_eq_iff)
  have h6: "py_get2 (self_board new_game) 6 4 = Inr (Some (Pawn White))" by code_simp
  have h7: "on_board 7 4 \<and> (7, 4) \<noteq> (py_norm 6, py_norm 4) \<and> (7, 4) \<noteq> (4 :: int, 4 :: int)"
    by (simp add: on_board_def py_norm_def)
  from quiet_move_effect [OF h1 h2 h3 h4 h5'] h6 h7
  have "py_get2 (self_board ?g') 6 4 = Inr None"
    "py_get2 (self_board ?g') 4 4 = Inr (Some (Pawn White))"
    "at (self_board ?g') 7 4 = at (self_board new_game) 7 4"
    "self_turn ?g' \<noteq> self_turn new_game"
    "self_game_state ?g' = self_game_state new_game"
    by auto
  with h1 h2 h3 h4 h5 show ?thesis by blast
qed

lemma after_capture_explode:
  assumes w: "wf_board (self_board g)"
  shows "wf_board (self_board (after_capture g row_from column_from row_to column_to)) \<and>
         (\<forall>r c. on_board r c \<longrightarrow>
            at (self_board (after_capture g row_from column_from row_to column_to)) r c =
            blasted (put (self_board g) (py_norm row_from) (py_norm column_from) None)
              row_to column_to (blast_squares row_to column_to) r c)"
proof -
  let ?b1 = "put (self_board g) (py_norm row_from) (py_norm column_from) None"
  have w1: "wf_board ?b1" by (rule wf_put [OF w])
  have sq: "\<And>r c. (r, c) \<in> set (blast_squares row_to column_to) \<Longrightarrow> on_board r c"
    by (rule blast_squares_on_board)
  note e = explode_wf [OF w1 sq, where row_to = row_to and column_to = column_to]
  have b: "self_board (after_capture g row_from column_from row_to column_to) =
        snd (explode ?b1 row_to column_to (blast_squares row_to column_to))"
    by (simp add: after_capture_def Let_def)
  show ?thesis unfolding b using e by blast
qed

lemma after_capture_wf:
  "wf_board (self_board g) \<Longrightarrow>
   wf_board (self_board (after_capture g row_from column_from row_to column_to))"
  using after_capture_explode by blast

lemma after_capture_board:
  "wf_board (self_board g) \<Longrightarrow> on_board r c \<Longrightarrow>
   at (self_board (after_capture g row_from column_from row_to column_to)) r c =
   blasted (put (self_board g) (py_norm row_from) (py_norm column_from) None)
     row_to column_to (blast_squares row_to column_to) r c"
  using after_capture_explode by blast

lemma make_move_wf:
  assumes w: "wf_board (self_board g)"
  shows "wf_board (self_board (snd (make_move g string_from string_to)))"
proof (cases "snd (make_move g string_from string_to) = g")
  case True
  then show ?thesis using w by simp
next
  case False
  let ?g' = "snd (make_move g string_from string_to)"
  from False make_move_cases [OF w, of string_from string_to]
  have "make_move g string_from string_to = (Inr True, ?g')"
    by (simp add: prod_eq_iff)
  from make_move_accepted [OF this]
  obtain row_from column_from row_to column_to
    where "move_squares g row_from column_from row_to column_to = (Inr True, ?g')"
    by blast
  from move_squares_accepted [OF w this]
  obtain mover where "case at (self_board g) row_to column_to of
           None \<Rightarrow> ?g' = after_relocate g mover row_from column_from row_to column_to
         | Some target \<Rightarrow>
             get_color target \<noteq> self_turn g \<and>
             \<not> king_in_blast (self_board g) (self_turn g) row_to column_to \<and>
             ?g' = after_capture g row_from column_from row_to column_to"
    by blast
  then have "?g' = after_relocate g mover row_from column_from row_to column_to \<or>
             ?g' = after_capture g row_from column_from row_to column_to"
    by (cases "at (self_board g) row_to column_to") simp_all
  then show ?thesis
  proof
    assume "?g' = after_relocate g mover row_from column_from row_to column_to"
    then have "self_board ?g' =
        put (put (self_board g) (py_norm row_from) (py_norm column_from) None)
          row_to column_to (Some mover)"
      by (simp add: after_relocate_def)
    then show ?thesis by (simp add: wf_put w)
  next
    assume "?g' = after_capture g row_from column_from row_to column_to"
    then show ?thesis using after_capture_wf [OF w] by simp
  qed
qed

lemma play_wf: "wf_board (self_board g) \<Longrightarrow> wf_board (self_board (play g moves))"
proof (induction moves arbitrary: g)
  case Nil
  then show ?case by simp
next
  case (Cons m moves)
  obtain a b where m: "m = (a, b)" by (cases m)
  show ?case unfolding m play.simps by (rule Cons.IH [OF make_move_wf [OF Cons.prems]])
qed

text \<open>
  C2: after an accepted capture every square of the 3 by 3 neighbourhood of the
  destination that lies on the board is empty, except that a pawn which stood on a
  neighbourhood square other than the destination is still there (the capturing piece
  counts as standing on the destination: the square it left is empty). The destination
  itself is empty, whatever the captured and the capturing piece were.
\<close>

theorem capture_blast_effect:
  assumes "wf_board (self_board g)"
    and "algebraic string_from = Inr (row_from, column_from)"
    and "algebraic string_to = Inr (row_to, column_to)"
    and "py_get2 (self_board g) row_to column_to = Inr (Some target)"
    and "make_move g string_from string_to = (Inr True, g')"
  shows "(\<forall>r c. in_blast row_to column_to r c \<longrightarrow>
            at (self_board g') r c =
              (if is_pawn (at (self_board g) r c) \<and> (r, c) \<noteq> (row_to, column_to) \<and>
                  (r, c) \<noteq> (py_norm row_from, py_norm column_from)
               then at (self_board g) r c else None)) \<and>
         at (self_board g') row_to column_to = None"
proof -
  let ?b = "self_board g"
  let ?nr = "py_norm row_from" and ?nc = "py_norm column_from"
  let ?b1 = "put ?b ?nr ?nc None"
  from make_move_accepted_squares [OF assms(1,2,3,5)]
  obtain mover where i: "indexable row_from column_from" and ob: "on_board row_to column_to"
    and fin: "case at ?b row_to column_to of
           None \<Rightarrow> g' = after_relocate g mover row_from column_from row_to column_to
         | Some target \<Rightarrow>
             get_color target \<noteq> self_turn g \<and>
             \<not> king_in_blast ?b (self_turn g) row_to column_to \<and>
             g' = after_capture g row_from column_from row_to column_to"
    by blast
  have occ: "at ?b row_to column_to = Some target"
    using assms(4) by (simp add: py_get2_on_board [OF assms(1) ob])
  have g': "g' = after_capture g row_from column_from row_to column_to"
    using fin by (simp add: occ)
  have on: "on_board ?nr ?nc" by (rule on_board_norm [OF i])
  have main: "at (self_board g') r c =
              (if is_pawn (at ?b r c) \<and> (r, c) \<noteq> (row_to, column_to) \<and> (r, c) \<noteq> (?nr, ?nc)
               then at ?b r c else None)" if "in_blast row_to column_to r c" for r c
  proof -
    have o: "on_board r c" using that by (simp add: in_blast_def)
    have m: "(r, c) \<in> set (blast_squares row_to column_to)"
      using that by (simp add: set_blast_squares)
    have a1: "at ?b1 r c = (if r = ?nr \<and> c = ?nc then None else at ?b r c)"
      by (rule at_put [OF assms(1) on o])
    have e: "at (self_board g') r c =
        (if is_pawn (at ?b1 r c) \<and> (r, c) \<noteq> (row_to, column_to) then at ?b1 r c else None)"
      unfolding g' after_capture_board [OF assms(1) o] blasted_def using m by simp
    show ?thesis
    proof (cases "r = ?nr \<and> c = ?nc")
      case True
      then have "at ?b1 r c = None" using a1 by simp
      then show ?thesis unfolding e using True by (simp add: is_pawn_def)
    next
      case False
      then have "at ?b1 r c = at ?b r c" unfolding a1 by (rule if_not_P)
      then show ?thesis unfolding e using False by auto
    qed
  qed
  have "in_blast row_to column_to row_to column_to"
    using ob by (simp add: in_blast_def)
  from main [OF this] have "at (self_board g') row_to column_to = None" by simp
  with main show ?thesis by blast
qed

theorem capture_blast_effect_witness:
  "wf_board (self_board knight_on_e5) \<and>
   algebraic ''e5'' = Inr (3, 4) \<and> algebraic ''f7'' = Inr (1, 5) \<and>
   py_get2 (self_board knight_on_e5) 1 5 = Inr (Some (Pawn Black)) \<and>
   fst (make_move knight_on_e5 ''e5'' ''f7'') = Inr True \<and>
   at (self_board knight_on_e5) 0 4 = Some (King Black) \<and>
   at (self_board (snd (make_move knight_on_e5 ''e5'' ''f7''))) 0 4 = None \<and>
   at (self_board (snd (make_move knight_on_e5 ''e5'' ''f7''))) 1 4 = Some (Pawn Black) \<and>
   at (self_board (snd (make_move knight_on_e5 ''e5'' ''f7''))) 1 5 = None"
proof -
  let ?g = knight_on_e5
  let ?g' = "snd (make_move knight_on_e5 ''e5'' ''f7'')"
  have h1: "wf_board (self_board ?g)"
    unfolding knight_on_e5_def by (rule play_wf [OF wf_new_game])
  have h2: "algebraic ''e5'' = Inr (3, 4)" by code_simp
  have h3: "algebraic ''f7'' = Inr (1, 5)" by code_simp
  have h4: "py_get2 (self_board ?g) 1 5 = Inr (Some (Pawn Black))" by code_simp
  have h5: "fst (make_move ?g ''e5'' ''f7'') = Inr True" by code_simp
  then have h5': "make_move ?g ''e5'' ''f7'' = (Inr True, ?g')"
    by (simp add: prod_eq_iff)
  have k: "at (self_board ?g) 0 4 = Some (King Black)" by code_simp
  have p: "at (self_board ?g) 1 4 = Some (Pawn Black)" by code_simp
  have n1: "in_blast 1 5 0 4" by (simp add: in_blast_def on_board_def)
  have n2: "in_blast 1 5 1 4" by (simp add: in_blast_def on_board_def)
  have n3: "py_norm 3 = 3" "py_norm 4 = 4" by (simp_all add: py_norm_def)
  note t = capture_blast_effect [OF h1 h2 h3 h4 h5']
  from t have all: "\<forall>r c. in_blast 1 5 r c \<longrightarrow>
            at (self_board ?g') r c =
              (if is_pawn (at (self_board ?g) r c) \<and> (r, c) \<noteq> (1, 5) \<and>
                  (r, c) \<noteq> (py_norm 3, py_norm 4)
               then at (self_board ?g) r c else None)" by (rule conjunct1)
  have a: "at (self_board ?g') 0 4 = None"
    using all [rule_format, OF n1] by (simp add: k is_pawn_def)
  have b: "at (self_board ?g') 1 4 = Some (Pawn Black)"
    using all [rule_format, OF n2] by (simp add: p is_pawn_def n3)
  have c: "at (self_board ?g') 1 5 = None"
    using t by (rule conjunct2)
  from h1 h2 h3 h4 h5 k a b c show ?thesis by blast
qed

lemma opponent_neq: "opponent c \<noteq> c"
  by (cases c) (simp_all add: opponent_def)

text \<open>
  C3: after an accepted capture, if a king of the side that did not move stands in the
  3 by 3 neighbourhood of the destination on the board as it is just before the explosion
  (the origin already vacated), the game state is the mover's win, every square of the
  neighbourhood that held such a king is empty and the turn is not passed on; otherwise
  the turn passes to the other side and the game state stays UNFINISHED. Vacating the
  origin does not change whether such a king stands in the neighbourhood.
\<close>

theorem capture_king_outcome:
  assumes "wf_board (self_board g)"
    and "algebraic string_from = Inr (row_from, column_from)"
    and "algebraic string_to = Inr (row_to, column_to)"
    and "py_get2 (self_board g) row_to column_to = Inr (Some target)"
    and "make_move g string_from string_to = (Inr True, g')"
    and "py_set2 (self_board g) row_from column_from None = Inr b1"
  shows "(if king_in_blast b1 (opponent (self_turn g)) row_to column_to
          then self_game_state g' = winner (self_turn g) \<and> self_turn g' = self_turn g \<and>
               (\<forall>r c. in_blast row_to column_to r c \<and>
                      at b1 r c = Some (King (opponent (self_turn g))) \<longrightarrow>
                      at (self_board g') r c = None)
          else self_turn g' = opponent (self_turn g) \<and> self_game_state g' = UNFINISHED) \<and>
         king_in_blast b1 (opponent (self_turn g)) row_to column_to =
           king_in_blast (self_board g) (opponent (self_turn g)) row_to column_to"
proof -
  let ?b = "self_board g"
  let ?nr = "py_norm row_from" and ?nc = "py_norm column_from"
  let ?opp = "opponent (self_turn g)"
  from make_move_accepted_squares [OF assms(1,2,3,5)]
  obtain mover where u: "self_game_state g = UNFINISHED"
    and i: "indexable row_from column_from" and ob: "on_board row_to column_to"
    and mv: "at ?b ?nr ?nc = Some mover" and col: "get_color mover = self_turn g"
    and fin: "case at ?b row_to column_to of
           None \<Rightarrow> g' = after_relocate g mover row_from column_from row_to column_to
         | Some target \<Rightarrow>
             get_color target \<noteq> self_turn g \<and>
             \<not> king_in_blast ?b (self_turn g) row_to column_to \<and>
             g' = after_capture g row_from column_from row_to column_to"
    by blast
  have occ: "at ?b row_to column_to = Some target"
    using assms(4) by (simp add: py_get2_on_board [OF assms(1) ob])
  have g': "g' = after_capture g row_from column_from row_to column_to"
    using fin by (simp add: occ)
  have b1: "b1 = put ?b ?nr ?nc None"
    using assms(6) by (simp add: py_set2_wf [OF assms(1)] i)
  have on: "on_board ?nr ?nc" by (rule on_board_norm [OF i])
  have king_same: "at b1 r c = Some (King ?opp) \<longleftrightarrow> at ?b r c = Some (King ?opp)"
    if o: "on_board r c" for r c
  proof (cases "r = ?nr \<and> c = ?nc")
    case True
    have "at b1 r c = None" unfolding b1 at_put [OF assms(1) on o] using True by simp
    moreover have "at ?b r c \<noteq> Some (King ?opp)"
      using True mv col opponent_neq [of "self_turn g"] by auto
    ultimately show ?thesis by simp
  next
    case False
    have "at b1 r c = at ?b r c" unfolding b1 at_put [OF assms(1) on o] using False by (rule if_not_P)
    then show ?thesis by simp
  qed
  have eq: "king_in_blast b1 ?opp row_to column_to = king_in_blast ?b ?opp row_to column_to"
    unfolding king_in_blast_iff using king_same by (auto simp: in_blast_def)
  have cleared: "at (self_board g') r c = None"
    if "in_blast row_to column_to r c" "at b1 r c = Some (King ?opp)" for r c
  proof -
    have o: "on_board r c" using that(1) by (simp add: in_blast_def)
    have m: "(r, c) \<in> set (blast_squares row_to column_to)"
      using that(1) by (simp add: set_blast_squares)
    show ?thesis
      unfolding g' after_capture_board [OF assms(1) o] blasted_def
      using m that(2) by (simp add: b1 [symmetric] is_pawn_def)
  qed
  show ?thesis
  proof (cases "king_in_blast b1 ?opp row_to column_to")
    case True
    then have "self_game_state g' = winner (self_turn g)" "self_turn g' = self_turn g"
      by (simp_all add: g' after_capture_def Let_def b1 [symmetric])
    then show ?thesis using True cleared eq by simp
  next
    case False
    then have "self_turn g' = ?opp" "self_game_state g' = UNFINISHED"
      by (simp_all add: g' after_capture_def Let_def b1 [symmetric] u)
    then show ?thesis using False eq by simp
  qed
qed

theorem capture_king_outcome_witness:
  "wf_board (self_board knight_on_e5) \<and>
   algebraic ''e5'' = Inr (3, 4) \<and> algebraic ''f7'' = Inr (1, 5) \<and>
   py_get2 (self_board knight_on_e5) 1 5 = Inr (Some (Pawn Black)) \<and>
   fst (make_move knight_on_e5 ''e5'' ''f7'') = Inr True \<and>
   py_set2 (self_board knight_on_e5) 3 4 None = Inr (put (self_board knight_on_e5) 3 4 None) \<and>
   self_turn knight_on_e5 = White \<and>
   at (put (self_board knight_on_e5) 3 4 None) 0 4 = Some (King Black) \<and>
   self_game_state (snd (make_move knight_on_e5 ''e5'' ''f7'')) = WHITE_WON \<and>
   self_turn (snd (make_move knight_on_e5 ''e5'' ''f7'')) = White \<and>
   at (self_board (snd (make_move knight_on_e5 ''e5'' ''f7''))) 0 4 = None"
proof -
  let ?g = knight_on_e5
  let ?g' = "snd (make_move knight_on_e5 ''e5'' ''f7'')"
  let ?b1 = "put (self_board knight_on_e5) 3 4 None"
  have h1: "wf_board (self_board ?g)"
    unfolding knight_on_e5_def by (rule play_wf [OF wf_new_game])
  have h2: "algebraic ''e5'' = Inr (3, 4)" by code_simp
  have h3: "algebraic ''f7'' = Inr (1, 5)" by code_simp
  have h4: "py_get2 (self_board ?g) 1 5 = Inr (Some (Pawn Black))" by code_simp
  have h5: "fst (make_move ?g ''e5'' ''f7'') = Inr True" by code_simp
  then have h5': "make_move ?g ''e5'' ''f7'' = (Inr True, ?g')"
    by (simp add: prod_eq_iff)
  have h6: "py_set2 (self_board ?g) 3 4 None = Inr ?b1" by code_simp
  have t: "self_turn ?g = White" by code_simp
  have k: "at ?b1 0 4 = Some (King Black)" by code_simp
  have n: "in_blast 1 5 0 4" by (simp add: in_blast_def on_board_def)
  have kb: "king_in_blast ?b1 (opponent (self_turn ?g)) 1 5"
    unfolding king_in_blast_iff using n k t by (auto simp: opponent_def)
  from capture_king_outcome [OF h1 h2 h3 h4 h5' h6] kb
  have r: "self_game_state ?g' = winner (self_turn ?g)" "self_turn ?g' = self_turn ?g"
    "\<forall>r c. in_blast 1 5 r c \<and> at ?b1 r c = Some (King (opponent (self_turn ?g))) \<longrightarrow>
           at (self_board ?g') r c = None"
    by simp_all
  have a: "at (self_board ?g') 0 4 = None"
    using r(3) n k t by (simp add: opponent_def)
  from r(1,2) have "self_game_state ?g' = WHITE_WON" "self_turn ?g' = White"
    by (simp_all add: t winner_def)
  with h1 h2 h3 h4 h5 h6 t k a show ?thesis by blast
qed

section \<open>Both kings stay on the board\<close>

lemma has_king_iff: "has_king b col \<longleftrightarrow> (\<exists>r c. on_board r c \<and> at b r c = Some (King col))"
  unfolding has_king_def on_board_def Bex_def atLeastAtMost_iff by blast

lemma color_cases: "col = turn \<or> col = opponent turn"
  by (cases col; cases turn) (simp_all add: opponent_def)

lemma winner_finished: "winner c \<noteq> UNFINISHED"
  by (cases c) (simp_all add: winner_def)

lemma king_never_captures:
  "is_move_valid (King col) row_from column_from row_to column_to (Some target) b = Inr False"
  by (simp add: King_is_move_valid_def)

lemma relocate_keeps_king:
  assumes w: "wf_board (self_board g)" and i: "indexable row_from column_from"
    and ob: "on_board row_to column_to"
    and mv: "at (self_board g) (py_norm row_from) (py_norm column_from) = Some mover"
    and empty: "at (self_board g) row_to column_to = None"
    and k: "has_king (self_board g) col"
  shows "has_king (self_board (after_relocate g mover row_from column_from row_to column_to)) col"
proof -
  let ?b = "self_board g"
  let ?nr = "py_norm row_from" and ?nc = "py_norm column_from"
  let ?b1 = "put ?b ?nr ?nc None"
  let ?b2 = "put ?b1 row_to column_to (Some mover)"
  have b': "self_board (after_relocate g mover row_from column_from row_to column_to) = ?b2"
    by (simp add: after_relocate_def)
  have w1: "wf_board ?b1" by (rule wf_put [OF w])
  have on: "on_board ?nr ?nc" by (rule on_board_norm [OF i])
  from k obtain r c where o: "on_board r c" and kc: "at ?b r c = Some (King col)"
    unfolding has_king_iff by blast
  show ?thesis
  proof (cases "r = ?nr \<and> c = ?nc")
    case True
    then have "mover = King col" using mv kc by simp
    then have "at ?b2 row_to column_to = Some (King col)"
      by (simp add: at_put [OF w1 ob ob])
    then show ?thesis unfolding b' has_king_iff using ob by blast
  next
    case False
    have ne: "\<not> (r = row_to \<and> c = column_to)" using kc empty by auto
    have "at ?b2 r c = at ?b1 r c"
      unfolding at_put [OF w1 ob o] using ne by (rule if_not_P)
    also have "\<dots> = at ?b r c"
      unfolding at_put [OF w on o] using False by (rule if_not_P)
    finally have "at ?b2 r c = Some (King col)" using kc by simp
    then show ?thesis unfolding b' has_king_iff using o by blast
  qed
qed

lemma capture_keeps_king:
  assumes w: "wf_board (self_board g)" and i: "indexable row_from column_from"
    and mv: "at (self_board g) (py_norm row_from) (py_norm column_from) = Some mover"
    and nk: "mover \<noteq> King col"
    and out: "\<not> king_in_blast (self_board g) col row_to column_to"
    and k: "has_king (self_board g) col"
  shows "has_king (self_board (after_capture g row_from column_from row_to column_to)) col"
proof -
  let ?b = "self_board g"
  let ?nr = "py_norm row_from" and ?nc = "py_norm column_from"
  let ?b1 = "put ?b ?nr ?nc None"
  have on: "on_board ?nr ?nc" by (rule on_board_norm [OF i])
  from k obtain r c where o: "on_board r c" and kc: "at ?b r c = Some (King col)"
    unfolding has_king_iff by blast
  have "\<not> in_blast row_to column_to r c"
    using out kc unfolding king_in_blast_iff by blast
  then have m: "(r, c) \<notin> set (blast_squares row_to column_to)"
    by (simp add: set_blast_squares)
  have ne: "\<not> (r = ?nr \<and> c = ?nc)" using mv kc nk by auto
  have "at (self_board (after_capture g row_from column_from row_to column_to)) r c = at ?b1 r c"
    unfolding after_capture_board [OF w o] blasted_def using m by simp
  also have "\<dots> = at ?b r c"
    unfolding at_put [OF w on o] using ne by (rule if_not_P)
  finally show ?thesis unfolding has_king_iff using o kc by auto
qed

lemma make_move_inv:
  assumes inv: "game_inv g"
  shows "game_inv (snd (make_move g string_from string_to))"
proof (cases "snd (make_move g string_from string_to) = g")
  case True
  then show ?thesis using inv by simp
next
  case False
  let ?g' = "snd (make_move g string_from string_to)"
  let ?b = "self_board g"
  have w: "wf_board ?b" using inv by (simp add: game_inv_def)
  have w': "wf_board (self_board ?g')" by (rule make_move_wf [OF w])
  from False make_move_cases [OF w, of string_from string_to]
  have acc: "make_move g string_from string_to = (Inr True, ?g')"
    by (simp add: prod_eq_iff)
  from make_move_accepted [OF acc]
  obtain row_from column_from row_to column_to
    where u: "self_game_state g = UNFINISHED"
      and ms: "move_squares g row_from column_from row_to column_to = (Inr True, ?g')"
    by blast
  have kings: "has_king ?b col" for col
    using inv u by (cases col) (simp_all add: game_inv_def)
  let ?nr = "py_norm row_from" and ?nc = "py_norm column_from"
  from move_squares_accepted [OF w ms]
  obtain mover where i: "indexable row_from column_from" and ob: "on_board row_to column_to"
    and mv: "at ?b ?nr ?nc = Some mover"
    and valid: "is_move_valid mover row_from column_from row_to column_to
          (at ?b row_to column_to) ?b = Inr True"
    and fin: "case at ?b row_to column_to of
           None \<Rightarrow> ?g' = after_relocate g mover row_from column_from row_to column_to
         | Some target \<Rightarrow>
             get_color target \<noteq> self_turn g \<and>
             \<not> king_in_blast ?b (self_turn g) row_to column_to \<and>
             ?g' = after_capture g row_from column_from row_to column_to"
    by blast
  have "self_game_state ?g' = UNFINISHED \<longrightarrow> has_king (self_board ?g') col" for col
  proof (cases "at ?b row_to column_to")
    case None
    then have g': "?g' = after_relocate g mover row_from column_from row_to column_to"
      using fin by simp
    show ?thesis
      unfolding g' using relocate_keeps_king [OF w i ob mv None kings] by simp
  next
    case (Some target)
    then have g': "?g' = after_capture g row_from column_from row_to column_to"
      and own: "\<not> king_in_blast ?b (self_turn g) row_to column_to"
      using fin by simp_all
    have nk: "mover \<noteq> King k" for k
      using valid king_never_captures [of k row_from column_from row_to column_to target ?b]
      by (auto simp: Some)
    let ?b1 = "put ?b ?nr ?nc None"
    have on: "on_board ?nr ?nc" by (rule on_board_norm [OF i])
    show ?thesis
    proof (cases "king_in_blast ?b1 (opponent (self_turn g)) row_to column_to")
      case True
      then have "self_game_state ?g' = winner (self_turn g)"
        by (simp add: g' after_capture_def Let_def)
      then show ?thesis by (simp add: winner_finished)
    next
      case False
      have "\<not> king_in_blast ?b (opponent (self_turn g)) row_to column_to"
      proof
        assume "king_in_blast ?b (opponent (self_turn g)) row_to column_to"
        then obtain r c where ib: "in_blast row_to column_to r c"
          and kc: "at ?b r c = Some (King (opponent (self_turn g)))"
          unfolding king_in_blast_iff by blast
        have o: "on_board r c" using ib by (simp add: in_blast_def)
        have ne: "\<not> (r = ?nr \<and> c = ?nc)"
          using mv kc nk [of "opponent (self_turn g)"] by auto
        have "at ?b1 r c = at ?b r c"
          unfolding at_put [OF w on o] using ne by (rule if_not_P)
        then have "king_in_blast ?b1 (opponent (self_turn g)) row_to column_to"
          unfolding king_in_blast_iff using ib kc by auto
        then show False using False by simp
      qed
      with own have "\<not> king_in_blast ?b col row_to column_to"
        using color_cases [of col "self_turn g"] by auto
      from capture_keeps_king [OF w i mv nk this kings]
      show ?thesis unfolding g' by simp
    qed
  qed
  then show ?thesis using w' by (simp add: game_inv_def)
qed

lemma new_game_inv: "game_inv new_game"
proof -
  have "at (self_board new_game) 7 4 = Some (King White)"
    "at (self_board new_game) 0 4 = Some (King Black)"
    by (simp_all add: new_game_def at_def)
  moreover have "on_board 7 4" "on_board 0 4" by (simp_all add: on_board_def)
  ultimately have "has_king (self_board new_game) White" "has_king (self_board new_game) Black"
    unfolding has_king_iff by blast+
  then show ?thesis by (simp add: game_inv_def wf_new_game)
qed

lemma play_inv: "game_inv g \<Longrightarrow> game_inv (play g moves)"
proof (induction moves arbitrary: g)
  case Nil
  then show ?case by simp
next
  case (Cons m moves)
  obtain a b where m: "m = (a, b)" by (cases m)
  show ?case unfolding m play.simps by (rule Cons.IH [OF make_move_inv [OF Cons.prems]])
qed

text \<open>
  C10: in every state reached from the initial position by a sequence of \<open>make_move\<close>
  calls, whatever they return or raise, both the white and the black king stand on the
  board as long as the game state is UNFINISHED.
\<close>

theorem kings_on_board_while_unfinished:
  assumes "self_game_state (play new_game moves) = UNFINISHED"
  shows "has_king (self_board (play new_game moves)) White \<and>
         has_king (self_board (play new_game moves)) Black"
  using play_inv [OF new_game_inv, of moves] assms by (simp add: game_inv_def)

theorem kings_on_board_while_unfinished_witness:
  "self_game_state knight_on_e5 = UNFINISHED \<and>
   has_king (self_board knight_on_e5) White \<and> has_king (self_board knight_on_e5) Black"
proof -
  have h: "self_game_state knight_on_e5 = UNFINISHED" by code_simp
  from kings_on_board_while_unfinished [of "[(''g1'', ''f3''), (''a7'', ''a6''), (''f3'', ''e5''), (''a6'', ''a5'')]"]
    h show ?thesis
    unfolding knight_on_e5_def by simp
qed

section \<open>The King's and the Pawn's rule\<close>

text \<open>
  C8: the King's rule accepts a move exactly when origin and destination are at most one
  row and at most one column apart and the destination is empty. So \<open>make_move\<close> rejects
  every move of a king onto an occupied square, adjacent or not, and changes nothing.
\<close>

theorem king_rule_no_capture:
  "King_is_move_valid row_from column_from row_to column_to square_to board =
     Inr (max \<bar>row_from - row_to\<bar> \<bar>column_from - column_to\<bar> \<le> 1 \<and> square_to = None) \<and>
   (algebraic string_from = Inr (row_from, column_from) \<and>
    algebraic string_to = Inr (row_to, column_to) \<and>
    py_get2 (self_board g) row_from column_from = Inr (Some (King col)) \<and>
    py_get2 (self_board g) row_to column_to = Inr (Some target) \<longrightarrow>
    make_move g string_from string_to = (Inr False, g))"
proof
  show "King_is_move_valid row_from column_from row_to column_to square_to board =
     Inr (max \<bar>row_from - row_to\<bar> \<bar>column_from - column_to\<bar> \<le> 1 \<and> square_to = None)"
    by (auto simp: King_is_move_valid_def)
  show "algebraic string_from = Inr (row_from, column_from) \<and>
    algebraic string_to = Inr (row_to, column_to) \<and>
    py_get2 (self_board g) row_from column_from = Inr (Some (King col)) \<and>
    py_get2 (self_board g) row_to column_to = Inr (Some target) \<longrightarrow>
    make_move g string_from string_to = (Inr False, g)"
    by (simp add: make_move_def move_squares_def King_is_move_valid_def)
qed

theorem king_rule_no_capture_witness:
  "algebraic ''e2'' = Inr (6, 4) \<and> algebraic ''d3'' = Inr (5, 3) \<and>
   py_get2 (self_board king_beside_pawn) 6 4 = Inr (Some (King White)) \<and>
   py_get2 (self_board king_beside_pawn) 5 3 = Inr (Some (Pawn Black)) \<and>
   self_game_state king_beside_pawn = UNFINISHED \<and> self_turn king_beside_pawn = White \<and>
   make_move king_beside_pawn ''e2'' ''d3'' = (Inr False, king_beside_pawn)"
proof -
  have h: "algebraic ''e2'' = Inr (6, 4) \<and> algebraic ''d3'' = Inr (5, 3) \<and>
   py_get2 (self_board king_beside_pawn) 6 4 = Inr (Some (King White)) \<and>
   py_get2 (self_board king_beside_pawn) 5 3 = Inr (Some (Pawn Black))" by code_simp
  have s: "self_game_state king_beside_pawn = UNFINISHED" "self_turn king_beside_pawn = White"
    by code_simp+
  from king_rule_no_capture [of 6 4 5 3 None "[]" "''e2''" "''d3''" king_beside_pawn White "Pawn Black"]
  have "make_move king_beside_pawn ''e2'' ''d3'' = (Inr False, king_beside_pawn)"
    using h by blast
  with h s show ?thesis by blast
qed

text \<open>
  C7: for a pawn on a square of the board, with an empty destination the Pawn's rule
  accepts a move exactly when it stays in its column and goes one row forward, or two
  rows forward from the pawn's starting row (6 for White, 1 for Black) over an empty
  square; with an occupied destination it accepts exactly the moves one row forward and
  one column aside. Forward is towards row 0 for White and towards row 7 for Black.
\<close>

theorem pawn_rule:
  assumes "wf_board board" and "on_board row_from column_from"
  shows "(square_to = None \<longrightarrow>
            Pawn_is_move_valid col row_from column_from row_to column_to square_to board =
              Inr (column_from = column_to \<and>
                   (advance col row_from row_to = 1 \<or>
                    advance col row_from row_to = 2 \<and> row_from = start_row col \<and>
                    at board (row_from + forward col) column_from = None))) \<and>
         (square_to \<noteq> None \<longrightarrow>
            Pawn_is_move_valid col row_from column_from row_to column_to square_to board =
              Inr (\<bar>column_from - column_to\<bar> = 1 \<and> advance col row_from row_to = 1))"
proof -
  have c: "0 \<le> column_from" "column_from \<le> 7" using assms(2) by (simp_all add: on_board_def)
  have r5: "py_get2 board 5 k = Inr (at board 5 k)" if "0 \<le> k" "k \<le> 7" for k
    by (rule py_get2_on_board [OF assms(1)]) (simp add: on_board_def that)
  have r2: "py_get2 board 2 k = Inr (at board 2 k)" if "0 \<le> k" "k \<le> 7" for k
    by (rule py_get2_on_board [OF assms(1)]) (simp add: on_board_def that)
  show ?thesis
    using c by (cases col)
       (auto simp: Pawn_is_move_valid_def advance_def forward_def start_row_def r5 r2)
qed

theorem pawn_rule_witness:
  "wf_board (self_board new_game) \<and> on_board 6 4 \<and>
   Pawn_is_move_valid White 6 4 4 4 None (self_board new_game) = Inr True \<and>
   Pawn_is_move_valid White 6 4 5 5 None (self_board new_game) = Inr False"
proof -
  have o: "on_board 6 4" by (simp add: on_board_def)
  have e: "at (self_board new_game) (6 + forward White) 4 = None"
    by (simp add: forward_def at_def new_game_def)
  from pawn_rule [OF wf_new_game o, of None White 4 4] e
  have 1: "Pawn_is_move_valid White 6 4 4 4 None (self_board new_game) = Inr True"
    by (simp add: advance_def forward_def start_row_def)
  from pawn_rule [OF wf_new_game o, of None White 5 5]
  have 2: "Pawn_is_move_valid White 6 4 5 5 None (self_board new_game) = Inr False"
    by simp
  from wf_new_game o 1 2 show ?thesis by blast
qed

section \<open>The Bishop's rule and the rules' results\<close>

declare bishop_path.simps [simp del]

lemma py_get2_indexable:
  "wf_board b \<Longrightarrow> indexable r c \<Longrightarrow> py_get2 b r c = Inr (at b (py_norm r) (py_norm c))"
  by (simp add: py_get2_wf)

lemma bishop_path_clear:
  assumes w: "wf_board b"
    and rs: "rs = (if row_from < row_to then 1 else - 1)"
    and cs: "cs = (if column_from < column_to then 1 else - 1)"
    and dr: "row_to - next_row = int n * rs"
    and dc: "column_to - next_column = int n * cs"
    and ix: "\<And>k. k < n \<Longrightarrow> indexable (next_row + int k * rs) (next_column + int k * cs)"
  shows "bishop_path b row_from column_from row_to column_to next_row next_column =
         Inr (\<forall>k<n. at b (py_norm (next_row + int k * rs)) (py_norm (next_column + int k * cs)) = None)"
  using dr dc ix
proof (induction n arbitrary: next_row next_column)
  case 0
  then have "next_row = row_to" by simp
  then show ?case by (subst bishop_path.simps) simp
next
  case (Suc n)
  have rs0: "rs = 1 \<or> rs = - 1" and cs0: "cs = 1 \<or> cs = - 1" using rs cs by auto
  have ne: "next_row \<noteq> row_to" "next_column \<noteq> column_to"
    using Suc.prems(1,2) rs0 cs0 by auto
  have i0: "indexable next_row next_column" using Suc.prems(3) [of 0] by simp
  note g = py_get2_indexable [OF w i0]
  have step: "bishop_path b row_from column_from row_to column_to next_row next_column =
      (if at b (py_norm next_row) (py_norm next_column) \<noteq> None then Inr False
       else bishop_path b row_from column_from row_to column_to (next_row + rs) (next_column + cs))"
    by (subst bishop_path.simps) (simp add: ne g rs cs Let_def)
  have d1: "row_to - (next_row + rs) = int n * rs" "column_to - (next_column + cs) = int n * cs"
    using Suc.prems(1,2) by (simp_all add: algebra_simps)
  have i1: "indexable (next_row + rs + int k * rs) (next_column + cs + int k * cs)" if "k < n" for k
    using Suc.prems(3) [of "Suc k"] that by (simp add: algebra_simps)
  note ih = Suc.IH [OF d1 i1]
  have shift: "(\<forall>k<Suc n. P k) \<longleftrightarrow> P 0 \<and> (\<forall>k<n. P (Suc k))" for P
    using less_Suc_eq_0_disj by auto
  have "bishop_path b row_from column_from row_to column_to next_row next_column =
      Inr (at b (py_norm next_row) (py_norm next_column) = None \<and>
           (\<forall>k<n. at b (py_norm (next_row + rs + int k * rs))
                      (py_norm (next_column + cs + int k * cs)) = None))"
    using ih by (simp add: step)
  also have "(at b (py_norm next_row) (py_norm next_column) = None \<and>
           (\<forall>k<n. at b (py_norm (next_row + rs + int k * rs))
                      (py_norm (next_column + cs + int k * cs)) = None)) =
      (\<forall>k<Suc n. at b (py_norm (next_row + int k * rs)) (py_norm (next_column + int k * cs)) = None)"
    by (subst shift) (simp add: algebra_simps)
  finally show ?case .
qed

lemma bishop_value:
  assumes w: "wf_board b"
    and i: "indexable row_from column_from" and j: "indexable row_to column_to"
    and ne: "(row_from, column_from) \<noteq> (row_to, column_to)"
    and diag: "\<bar>column_from - column_to\<bar> = \<bar>row_from - row_to\<bar>"
    and rs: "rs = (if row_from < row_to then 1 else - 1)"
    and cs: "cs = (if column_from < column_to then 1 else - 1)"
  shows "Bishop_is_move_valid row_from column_from row_to column_to sq b =
         Inr (\<forall>k<nat (\<bar>row_to - row_from\<bar> - 1).
                at b (py_norm (row_from + rs + int k * rs))
                     (py_norm (column_from + cs + int k * cs)) = None)"
proof -
  let ?n = "nat (\<bar>row_to - row_from\<bar> - 1)"
  have pos: "1 \<le> \<bar>row_to - row_from\<bar>" using ne diag by auto
  then have n: "int ?n = \<bar>row_to - row_from\<bar> - 1" by simp
  have dr: "row_to - (row_from + rs) = int ?n * rs"
    unfolding n using pos rs by (auto simp: algebra_simps)
  have dc: "column_to - (column_from + cs) = int ?n * cs"
    unfolding n using pos cs diag by (auto simp: algebra_simps)
  have ix: "indexable (row_from + rs + int k * rs) (column_from + cs + int k * cs)"
    if "k < ?n" for k
  proof -
    have k: "int k + 1 < \<bar>row_to - row_from\<bar>" using that by linarith
    have r: "row_from + rs + int k * rs = row_from + (int k + 1) * rs"
      and c: "column_from + cs + int k * cs = column_from + (int k + 1) * cs"
      by (simp_all add: algebra_simps)
    have "- 8 \<le> row_from + (int k + 1) * rs \<and> row_from + (int k + 1) * rs \<le> 7"
      using k i j rs by (auto simp: indexable_def)
    moreover have "- 8 \<le> column_from + (int k + 1) * cs \<and> column_from + (int k + 1) * cs \<le> 7"
      using k i j cs diag by (auto simp: indexable_def)
    ultimately show ?thesis unfolding r c indexable_def by simp
  qed
  have "Bishop_is_move_valid row_from column_from row_to column_to sq b =
        bishop_path b row_from column_from row_to column_to (row_from + rs) (column_from + cs)"
    using diag by (simp add: Bishop_is_move_valid_def rs cs Let_def)
  also note bishop_path_clear [OF w rs cs dr dc ix]
  finally show ?thesis .
qed

text \<open>
  C9: for two different squares of the board, the Bishop's rule accepts the move exactly
  when the row distance equals the column distance and every square strictly between
  origin and destination on that diagonal is empty, the square next to the destination
  included.
\<close>

theorem bishop_rule:
  assumes "wf_board board"
    and "on_board row_from column_from" and "on_board row_to column_to"
    and "(row_from, column_from) \<noteq> (row_to, column_to)"
  shows "Bishop_is_move_valid row_from column_from row_to column_to square_to board =
         Inr (\<bar>row_from - row_to\<bar> = \<bar>column_from - column_to\<bar> \<and>
              (\<forall>k. 0 < k \<and> k < \<bar>row_to - row_from\<bar> \<longrightarrow>
                 at board (row_from + k * sgn (row_to - row_from))
                          (column_from + k * sgn (column_to - column_from)) = None))"
proof (cases "\<bar>column_from - column_to\<bar> = \<bar>row_from - row_to\<bar>")
  case False
  then show ?thesis by (auto simp: Bishop_is_move_valid_def)
next
  case True
  define rs :: int where "rs = (if row_from < row_to then 1 else - 1)"
  define cs :: int where "cs = (if column_from < column_to then 1 else - 1)"
  let ?n = "nat (\<bar>row_to - row_from\<bar> - 1)"
  have pos: "row_from \<noteq> row_to" "column_from \<noteq> column_to" using assms(4) True by auto
  have sr: "sgn (row_to - row_from) = rs" and sc: "sgn (column_to - column_from) = cs"
    using pos by (auto simp: rs_def cs_def sgn_if)
  note v = bishop_value [OF assms(1) on_board_indexable [OF assms(2)]
      on_board_indexable [OF assms(3)] assms(4) True rs_def cs_def, of square_to]
  have inside: "on_board (row_from + k * rs) (column_from + k * cs)"
    if "0 < k" "k < \<bar>row_to - row_from\<bar>" for k
  proof -
    have "0 \<le> row_from + k * rs \<and> row_from + k * rs \<le> 7"
      using that assms(2,3) by (auto simp: on_board_def rs_def)
    moreover have "0 \<le> column_from + k * cs \<and> column_from + k * cs \<le> 7"
      using that assms(2,3) True by (auto simp: on_board_def cs_def)
    ultimately show ?thesis by (simp add: on_board_def)
  qed
  have "(\<forall>k<?n. at board (py_norm (row_from + rs + int k * rs))
                     (py_norm (column_from + cs + int k * cs)) = None) \<longleftrightarrow>
        (\<forall>k. 0 < k \<and> k < \<bar>row_to - row_from\<bar> \<longrightarrow>
               at board (row_from + k * rs) (column_from + k * cs) = None)"
    (is "?L \<longleftrightarrow> ?R")
  proof
    assume l: ?L
    show ?R
    proof (intro allI impI)
      fix k :: int
      assume k: "0 < k \<and> k < \<bar>row_to - row_from\<bar>"
      then have lt: "nat (k - 1) < ?n" by linarith
      have e: "int (nat (k - 1)) = k - 1" using k by simp
      have e1: "row_from + rs + int (nat (k - 1)) * rs = row_from + k * rs"
        and e2: "column_from + cs + int (nat (k - 1)) * cs = column_from + k * cs"
        unfolding e by (simp_all add: algebra_simps)
      have "at board (py_norm (row_from + k * rs)) (py_norm (column_from + k * cs)) = None"
        using l [rule_format, OF lt] unfolding e1 e2 .
      then show "at board (row_from + k * rs) (column_from + k * cs) = None"
        using on_board_norm_id [OF inside] k by simp
    qed
  next
    assume r: ?R
    show ?L
    proof (intro allI impI)
      fix k :: nat
      assume "k < ?n"
      then have k: "0 < int k + 1 \<and> int k + 1 < \<bar>row_to - row_from\<bar>" by linarith
      have e: "row_from + rs + int k * rs = row_from + (int k + 1) * rs"
        "column_from + cs + int k * cs = column_from + (int k + 1) * cs"
        by (simp_all add: algebra_simps)
      from r [rule_format, OF k]
      show "at board (py_norm (row_from + rs + int k * rs))
                     (py_norm (column_from + cs + int k * cs)) = None"
        unfolding e using on_board_norm_id [OF inside, of "int k + 1"] k by simp
    qed
  qed
  then show ?thesis unfolding v sr sc using True by auto
qed

theorem bishop_rule_witness:
  "wf_board (self_board pawn_on_b5) \<and> on_board 7 5 \<and> on_board 2 0 \<and>
   (7 :: int, 5 :: int) \<noteq> (2, 0) \<and>
   at (self_board pawn_on_b5) 6 4 = None \<and> at (self_board pawn_on_b5) 5 3 = None \<and>
   at (self_board pawn_on_b5) 4 2 = None \<and> at (self_board pawn_on_b5) 3 1 = Some (Pawn Black) \<and>
   Bishop_is_move_valid 7 5 2 0 None (self_board pawn_on_b5) = Inr False"
proof -
  let ?b = "self_board pawn_on_b5"
  have w: "wf_board ?b" unfolding pawn_on_b5_def by (rule play_wf [OF wf_new_game])
  have o: "on_board 7 5" "on_board 2 0" by (simp_all add: on_board_def)
  have ne: "(7 :: int, 5 :: int) \<noteq> (2, 0)" by simp
  have sq: "at ?b 6 4 = None \<and> at ?b 5 3 = None \<and> at ?b 4 2 = None \<and>
            at ?b 3 1 = Some (Pawn Black)" by code_simp
  have "\<not> (\<forall>k. 0 < k \<and> k < \<bar>2 - 7 :: int\<bar> \<longrightarrow>
            at ?b (7 + k * sgn (2 - 7)) (5 + k * sgn (0 - 5)) = None)"
  proof
    assume "\<forall>k. 0 < k \<and> k < \<bar>2 - 7 :: int\<bar> \<longrightarrow>
            at ?b (7 + k * sgn (2 - 7)) (5 + k * sgn (0 - 5)) = None"
    from this [rule_format, of 4] have "at ?b 3 1 = None" by simp
    then show False using sq by simp
  qed
  then have "Bishop_is_move_valid 7 5 2 0 None ?b = Inr False"
    unfolding bishop_rule [OF w o ne, of None] by simp
  with w o ne sq show ?thesis by blast
qed

lemma path_clear_total:
  assumes "wf_board b" "\<And>r c. (r, c) \<in> set sqs \<Longrightarrow> indexable r c"
  shows "\<exists>v. path_clear b sqs = Inr v"
  using assms(2)
proof (induction sqs)
  case Nil
  then show ?case by auto
next
  case (Cons sq sqs)
  obtain r c where sq: "sq = (r, c)" by (cases sq)
  have "indexable r c" using Cons.prems sq by simp
  note g = py_get2_indexable [OF assms(1) this]
  have "\<exists>v. path_clear b sqs = Inr v" using Cons by simp
  then show ?case by (auto simp: sq g)
qed

lemma rook_total:
  assumes w: "wf_board b" and i: "indexable row_from column_from"
    and j: "indexable row_to column_to"
  shows "\<exists>v. Rook_is_move_valid row_from column_from row_to column_to sq b = Inr v"
proof -
  have v: "\<exists>v. path_clear b (map (\<lambda>row. (row, column_from)) (py_range (row_from + step) row_to step)) = Inr v"
    if "step = (if row_from < row_to then 1 else - 1)" for step
    using i j that by (intro path_clear_total [OF w]) (auto simp: py_range_def indexable_def split: if_splits)
  have h: "\<exists>v. path_clear b (map (\<lambda>column. (row_from, column))
                  (py_range (column_from + step) column_to step)) = Inr v"
    if "step = (if column_from < column_to then 1 else - 1)" for step
    using i j that by (intro path_clear_total [OF w]) (auto simp: py_range_def indexable_def split: if_splits)
  show ?thesis
    using v h by (auto simp: Rook_is_move_valid_def Let_def)
qed

lemma bishop_total:
  assumes w: "wf_board b" and i: "indexable row_from column_from"
    and j: "indexable row_to column_to"
    and ne: "(row_from, column_from) \<noteq> (row_to, column_to)"
  shows "\<exists>v. Bishop_is_move_valid row_from column_from row_to column_to sq b = Inr v"
proof (cases "\<bar>column_from - column_to\<bar> = \<bar>row_from - row_to\<bar>")
  case True
  show ?thesis
    unfolding bishop_value [OF w i j ne True refl refl] by blast
next
  case False
  then show ?thesis by (auto simp: Bishop_is_move_valid_def)
qed

lemma pawn_total:
  assumes w: "wf_board b" and i: "indexable row_from column_from"
  shows "\<exists>v. Pawn_is_move_valid col row_from column_from row_to column_to sq b = Inr v"
proof -
  have c: "- 8 \<le> column_from" "column_from \<le> 7" using i by (simp_all add: indexable_def)
  have r5: "py_get2 b 5 k = Inr (at b (py_norm 5) (py_norm k))" if "- 8 \<le> k" "k \<le> 7" for k
    by (rule py_get2_indexable [OF w]) (simp add: indexable_def that)
  have r2: "py_get2 b 2 k = Inr (at b (py_norm 2) (py_norm k))" if "- 8 \<le> k" "k \<le> 7" for k
    by (rule py_get2_indexable [OF w]) (simp add: indexable_def that)
  show ?thesis
    using c by (cases col) (auto simp: Pawn_is_move_valid_def r5 r2 Let_def)
qed

lemma is_move_valid_total:
  assumes w: "wf_board b" and i: "indexable row_from column_from"
    and j: "indexable row_to column_to"
    and ne: "(row_from, column_from) \<noteq> (row_to, column_to)"
  shows "\<exists>v. is_move_valid p row_from column_from row_to column_to sq b = Inr v"
proof (cases p)
  case (Pawn c)
  then show ?thesis using pawn_total [OF w i] by simp
next
  case (Rook c)
  then show ?thesis using rook_total [OF w i j] by simp
next
  case (Knight c)
  then show ?thesis by (auto simp: Knight_is_move_valid_def)
next
  case (Bishop c)
  then show ?thesis using bishop_total [OF w i j ne] by simp
next
  case (Queen c)
  from rook_total [OF w i j, of sq] bishop_total [OF w i j ne, of sq]
  show ?thesis by (auto simp: Queen Queen_is_move_valid_def)
next
  case (King c)
  then show ?thesis by (auto simp: King_is_move_valid_def)
qed

section \<open>The self-destruction guard\<close>

text \<open>
  C4: a move onto an occupied square whose 3 by 3 neighbourhood, on the board before the
  move, holds the king of the moving piece's colour is rejected: \<open>make_move\<close> returns False
  and board, turn and game state are what they were.
\<close>

theorem own_king_in_blast_rejected:
  assumes "wf_board (self_board g)"
    and "algebraic string_from = Inr (row_from, column_from)"
    and "algebraic string_to = Inr (row_to, column_to)"
    and "py_get2 (self_board g) row_from column_from = Inr (Some mover)"
    and "py_get2 (self_board g) row_to column_to = Inr (Some target)"
    and "king_in_blast (self_board g) (get_color mover) row_to column_to"
  shows "make_move g string_from string_to = (Inr False, g)"
proof -
  let ?b = "self_board g"
  note w = assms(1)
  have i: "indexable row_from column_from"
    using assms(4) by (simp add: py_get2_wf [OF w] split: if_splits)
  have j: "indexable row_to column_to"
    using assms(5) by (simp add: py_get2_wf [OF w] split: if_splits)
  have mv: "at ?b (py_norm row_from) (py_norm column_from) = Some mover"
    using assms(4) by (simp add: py_get2_wf [OF w] i)
  have tg: "at ?b (py_norm row_to) (py_norm column_to) = Some target"
    using assms(5) by (simp add: py_get2_wf [OF w] j)
  have "move_squares g row_from column_from row_to column_to = (Inr False, g)"
  proof (cases "get_color mover = self_turn g \<and> on_board row_to column_to \<and>
                get_color target \<noteq> self_turn g")
    case False
    then show ?thesis
      by (auto simp: move_squares_wf [OF w] i j mv tg)
  next
    case True
    then have ob: "on_board row_to column_to" by simp
    note n = on_board_norm_id [OF ob]
    have ne: "(row_from, column_from) \<noteq> (row_to, column_to)"
    proof
      assume e: "(row_from, column_from) = (row_to, column_to)"
      then have "mover = target" using mv tg by simp
      then show False using True by auto
    qed
    from is_move_valid_total [OF w i j ne]
    obtain v where v: "is_move_valid mover row_from column_from row_to column_to
        (Some target) ?b = Inr v" by blast
    have k: "king_in_blast ?b (self_turn g) row_to column_to"
      using assms(6) True by simp
    show ?thesis
      using True v k tg n
      by (cases v) (simp_all add: move_squares_wf [OF w] i j mv capture_wf [OF w i])
  qed
  then show ?thesis
    by (simp add: make_move_def assms(2,3))
qed

theorem own_king_in_blast_rejected_witness:
  "wf_board (self_board king_beside_pawn) \<and>
   algebraic ''c2'' = Inr (6, 2) \<and> algebraic ''d3'' = Inr (5, 3) \<and>
   py_get2 (self_board king_beside_pawn) 6 2 = Inr (Some (Pawn White)) \<and>
   py_get2 (self_board king_beside_pawn) 5 3 = Inr (Some (Pawn Black)) \<and>
   at (self_board king_beside_pawn) 6 4 = Some (King White) \<and>
   self_game_state king_beside_pawn = UNFINISHED \<and> self_turn king_beside_pawn = White \<and>
   Pawn_is_move_valid White 6 2 5 3 (Some (Pawn Black)) (self_board king_beside_pawn) = Inr True \<and>
   make_move king_beside_pawn ''c2'' ''d3'' = (Inr False, king_beside_pawn)"
proof -
  let ?g = king_beside_pawn
  have w: "wf_board (self_board ?g)"
    unfolding king_beside_pawn_def by (rule play_wf [OF wf_new_game])
  have h2: "algebraic ''c2'' = Inr (6, 2)" by code_simp
  have h3: "algebraic ''d3'' = Inr (5, 3)" by code_simp
  have h4: "py_get2 (self_board ?g) 6 2 = Inr (Some (Pawn White))" by code_simp
  have h5: "py_get2 (self_board ?g) 5 3 = Inr (Some (Pawn Black))" by code_simp
  have k: "at (self_board ?g) 6 4 = Some (King White)" by code_simp
  have s: "self_game_state ?g = UNFINISHED" "self_turn ?g = White" by code_simp+
  have p: "Pawn_is_move_valid White 6 2 5 3 (Some (Pawn Black)) (self_board ?g) = Inr True"
    by code_simp
  have "in_blast 5 3 6 4" by (simp add: in_blast_def on_board_def)
  then have h6: "king_in_blast (self_board ?g) (get_color (Pawn White)) 5 3"
    unfolding king_in_blast_iff using k by auto
  from own_king_in_blast_rejected [OF w h2 h3 h4 h5 h6] w h2 h3 h4 h5 k s p
  show ?thesis by blast
qed

section \<open>Destinations outside the board\<close>

text \<open>What does hold for a destination outside the board: the call never moves a piece.
  It returns False or raises, and the state is what it was.\<close>

lemma destination_off_board_no_move:
  assumes w: "wf_board (self_board g)"
    and t: "algebraic string_to = Inr (row_to, column_to)"
    and off: "\<not> on_board row_to column_to"
  shows "snd (make_move g string_from string_to) = g \<and>
         fst (make_move g string_from string_to) \<in> {Inr False, Inl IndexError, Inl ValueError}"
proof -
  let ?r = "make_move g string_from string_to"
  have no: "fst ?r \<noteq> Inr True"
  proof
    assume "fst ?r = Inr True"
    then have a: "?r = (Inr True, snd ?r)" by (simp add: prod_eq_iff)
    from make_move_accepted [OF a] t
    obtain row_from column_from
      where "move_squares g row_from column_from row_to column_to = (Inr True, snd ?r)"
      by auto
    from move_squares_accepted [OF w this] off show False by simp
  qed
  with make_move_cases [OF w, of string_from string_to] have same: "snd ?r = g" by blast
  have "fst ?r \<in> {Inr False, Inl IndexError, Inl ValueError}"
  proof (cases "fst ?r")
    case (Inl e)
    then show ?thesis by (cases e) simp_all
  next
    case (Inr v)
    then show ?thesis using no by (cases v) simp_all
  qed
  with same show ?thesis by simp
qed

end
